theory Spec2Isabelle
  imports Main "HOL-Library.Sublist" "HOL-Library.Char_ord" "HOL-Library.List_Lexorder"
begin

chapter \<open>The programs\<close>

section \<open>Go library functions the repository code relies on\<close>

text \<open>
  Go strings are byte sequences and \<open>len\<close> counts bytes. They are modelled as
  \<^typ>\<open>string\<close>, a list of 8-bit characters.
\<close>

definition space :: char where
  "space = CHR '' ''"

definition newline :: char where
  "newline = CHR 0x0A"

definition carriage_return :: char where
  "carriage_return = CHR 0x0D"

text \<open>
  \<open>strings.Cut(s, sep)\<close> for a one-byte separator: the text before and after the
  first occurrence of \<open>sep\<close>, or \<open>None\<close> when \<open>sep\<close> does not occur in \<open>s\<close>.
\<close>

fun cut :: "char \<Rightarrow> string \<Rightarrow> (string \<times> string) option" where
  "cut sep [] = None"
| "cut sep (c # cs) =
     (if c = sep then Some ([], cs)
      else (case cut sep cs of None \<Rightarrow> None | Some (before, after) \<Rightarrow> Some (c # before, after)))"

text \<open>
  \<open>strings.SplitN(s, sep, n)\<close> for a one-byte separator and \<open>n \<ge> 0\<close>: at most
  \<open>n\<close> substrings, the last one being the unsplit remainder; \<open>n = 0\<close> gives no
  substring at all, and a string without the separator gives the string itself.
\<close>

fun SplitN :: "string \<Rightarrow> char \<Rightarrow> nat \<Rightarrow> string list" where
  "SplitN s sep 0 = []"
| "SplitN s sep (Suc 0) = [s]"
| "SplitN s sep (Suc (Suc n)) =
     (case cut sep s of
        None \<Rightarrow> [s]
      | Some (before, after) \<Rightarrow> before # SplitN after sep (Suc n))"

text \<open>
  Go error values. \<open>ErrInvalidObjectMap i\<close> is
  \<open>ErrInvalidObjectMap(fmt.Errorf("object map invalid at line %d", i))\<close>;
  \<open>ErrTooLong\<close> is \<open>bufio.ErrTooLong\<close>; \<open>ErrFetchIntoObjectPool e stderr\<close> is
  \<open>helper.ErrInternalf("fetch into object pool: %w, stderr: %q", e, stderr)\<close>;
  \<open>ErrGitFsck e\<close> is \<open>fmt.Errorf("git fsck: %v", e)\<close>; \<open>ErrOther msg\<close> is an
  error value produced by a collaborator (a callback, a reader, a Git process,
  the reference store).
\<close>

datatype error =
    ErrInvalidObjectMap int
  | ErrTooLong
  | ErrFetchIntoObjectPool error string
  | ErrGitFsck error
  | ErrOther string

text \<open>
  An \<open>io.Reader\<close>: the bytes it delivers, and the error that ends the stream
  (\<open>None\<close> is \<open>io.EOF\<close>).
\<close>

record reader =
  rd_data :: string
  rd_err :: "error option"

text \<open>
  \<open>bufio.Scanner\<close> with the default split function \<open>bufio.ScanLines\<close> and the
  default buffer limit \<open>bufio.MaxScanTokenSize\<close>. A token is a line without its
  end-of-line marker (a newline, with one carriage return before it dropped); the last
  line needs no newline, and an empty last line is no token. The scanner's buffer grows
  to \<open>MaxScanTokenSize\<close> bytes at most: when that many bytes hold no complete token,
  \<open>Scan\<close> gives up with \<open>ErrTooLong\<close>. \<open>Scan\<close> returns false at the end of the
  input, at a read error and at \<open>ErrTooLong\<close> alike; only \<open>scanner.Err()\<close> tells them
  apart. The result is the list of tokens \<open>scanner.Text()\<close> yields while \<open>Scan\<close> is
  true, and what \<open>scanner.Err()\<close> returns afterwards.
\<close>

definition MaxScanTokenSize :: nat where
  "MaxScanTokenSize = 64 * 1024"

definition dropCR :: "string \<Rightarrow> string" where
  "dropCR data = (if data \<noteq> [] \<and> last data = carriage_return then butlast data else data)"

function scanTokens :: "string \<Rightarrow> error option \<Rightarrow> string list \<times> error option" where
  "scanTokens data err =
     (if data = [] then ([], err)
      else
        (case cut newline data of
           None \<Rightarrow>
             if MaxScanTokenSize \<le> length data then ([], Some ErrTooLong)
             else ([dropCR data], err)
         | Some (line, rest) \<Rightarrow>
             if MaxScanTokenSize \<le> length line then ([], Some ErrTooLong)
             else (case scanTokens rest err of (tokens, e) \<Rightarrow> (dropCR line # tokens, e))))"
  by pat_completeness auto
termination
proof (relation "measure (\<lambda>(data, err). length data)")
  show "wf (measure (\<lambda>(data, err). length data))" by simp
next
  fix data :: string and err :: "error option" and x2 line rest
  assume "cut newline data = Some x2" and "(line, rest) = x2"
  then have c: "cut newline data = Some (line, rest)" by simp
  have "\<And>before. cut newline data = Some (before, rest) \<Longrightarrow> length rest < length data"
  proof (induction data)
    case Nil
    then show ?case by simp
  next
    case (Cons c cs)
    then show ?case by (auto split: if_splits option.splits)
  qed
  from this[OF c] show "((rest, err), (data, err)) \<in> measure (\<lambda>(data, err). length data)"
    by simp
qed

definition scan :: "reader \<Rightarrow> string list \<times> error option" where
  "scan r = scanTokens (rd_data r) (rd_err r)"

section \<open>Reference Transaction Updater\<close>

type_synonym ReferenceName = string
type_synonym ObjectID = string

datatype ref_op =
    Create ReferenceName ObjectID
  | Update ReferenceName ObjectID ObjectID
  | Delete ReferenceName

datatype updater_state = Open | Committed | Failed

record Updater =
  state :: updater_state
  staged :: "ref_op list"
  disabledTransactions :: bool

text \<open>
  The repository as the updater and the object pool see it: the reference store; the
  object graph (each object with the objects it refers to); two logs, of the batches the
  reference-transaction hook was invoked with and of the batches that were applied; and
  the two collaborators behind a commit, which the core does not own: whether the
  underlying store accepts an operation in a given state of the references, and whether
  the hook accepts a batch.
\<close>

record repository =
  refs :: "ReferenceName \<rightharpoonup> ObjectID"
  objects :: "ObjectID \<rightharpoonup> ObjectID list"
  hook_invocations :: "ref_op list list"
  commit_log :: "ref_op list list"
  store_accepts :: "(ReferenceName \<rightharpoonup> ObjectID) \<Rightarrow> ref_op \<Rightarrow> bool"
  hook_accepts :: "ref_op list \<Rightarrow> bool"

fun apply_op :: "(ReferenceName \<rightharpoonup> ObjectID) \<Rightarrow> ref_op \<Rightarrow> (ReferenceName \<rightharpoonup> ObjectID)" where
  "apply_op rs (Create name oid) = rs(name \<mapsto> oid)"
| "apply_op rs (Update name old new) = rs(name \<mapsto> new)"
| "apply_op rs (Delete name) = rs(name := None)"

text \<open>
  Modelled from the spec: how the store takes a batch is part of the package
  \<open>updateref\<close>, which is not among the source files. The spec's words: the operations
  are an ordered set, the last write for a name wins, and if any single operation is
  rejected by the underlying store the whole batch fails.
\<close>

fun apply_ops ::
  "((ReferenceName \<rightharpoonup> ObjectID) \<Rightarrow> ref_op \<Rightarrow> bool) \<Rightarrow> (ReferenceName \<rightharpoonup> ObjectID) \<Rightarrow>
   ref_op list \<Rightarrow> (ReferenceName \<rightharpoonup> ObjectID) option" where
  "apply_ops acc rs [] = Some rs"
| "apply_ops acc rs (x # xs) = (if acc rs x then apply_ops acc (apply_op rs x) xs else None)"

text \<open>
  Modelled from the spec: \<open>updateref.New\<close> is not among the source files. The spec's
  words: a new updater is Open, accepting staged operations; transactions can be
  disabled explicitly (\<open>WithDisabledTransactions\<close>).
\<close>

definition New :: "bool \<Rightarrow> Updater" where
  "New disabled = \<lparr>state = Open, staged = [], disabledTransactions = disabled\<rparr>"

text \<open>
  Modelled from the spec: \<open>Updater.Create\<close>, \<open>Update\<close> and \<open>Delete\<close> are not among
  the source files. The spec's words: they stage operations, non-blocking and without
  I/O; no operation is permitted once a terminal state is reached.
\<close>

definition stage :: "ref_op \<Rightarrow> Updater \<Rightarrow> error option \<times> Updater" where
  "stage x u =
     (if state u = Open then (None, u\<lparr>staged := staged u @ [x]\<rparr>)
      else (Some (ErrOther ''updater: no operation is permitted in a terminal state''), u))"

text \<open>
  Modelled from the spec: \<open>Updater.Commit\<close> is not among the source files. The spec's
  words: \<open>Commit\<close> applies all staged operations atomically and invokes the transaction
  hook exactly once for the whole batch, unless transactions are disabled; committing an
  empty transaction is a no-op success; if any single operation is rejected by the
  underlying store the whole batch fails and no reference is changed; a hook failure is
  treated the same; the state goes from Open to Committed or to Failed, and no operation
  is permitted once a terminal state is reached.
\<close>

definition Commit :: "Updater \<Rightarrow> repository \<Rightarrow> error option \<times> Updater \<times> repository" where
  "Commit u repo =
     (if state u \<noteq> Open then
        (Some (ErrOther ''updater: no operation is permitted in a terminal state''), u, repo)
      else if staged u = [] then (None, u\<lparr>state := Committed\<rparr>, repo)
      else
        (case apply_ops (store_accepts repo) (refs repo) (staged u) of
           None \<Rightarrow> (Some (ErrOther ''reference update failure''), u\<lparr>state := Failed\<rparr>, repo)
         | Some rs \<Rightarrow>
             if disabledTransactions u then
               (None, u\<lparr>state := Committed\<rparr>,
                repo\<lparr>refs := rs, commit_log := commit_log repo @ [staged u]\<rparr>)
             else if hook_accepts repo (staged u) then
               (None, u\<lparr>state := Committed\<rparr>,
                repo\<lparr>refs := rs, hook_invocations := hook_invocations repo @ [staged u],
                     commit_log := commit_log repo @ [staged u]\<rparr>)
             else
               (Some (ErrOther ''transaction hook failure''), u\<lparr>state := Failed\<rparr>,
                repo\<lparr>hook_invocations := hook_invocations repo @ [staged u]\<rparr>)))"

section \<open>Internal Reference Cleaner\<close>

text \<open>
  A \<open>ForEachFunc\<close> is a Go closure: it may keep state between its calls. Its result at
  a call is therefore a function of all the calls made to it so far, the current one
  last. A call is \<open>(oldOID, newOID, isInternalRef)\<close>.
\<close>

type_synonym cb_call = "string \<times> string \<times> bool"
type_synonym ForEachFunc = "cb_call list \<Rightarrow> error option"

text \<open>
  What the cleaner does to its collaborators, in order: the calls of the callback and
  the deletions handed to the updater. The source keeps no such log; the field
  \<open>events\<close> records it so that the order of the actions can be stated.
\<close>

datatype event =
    ForEachCalled string string bool
  | DeleteStaged ReferenceName

record Cleaner =
  forEach :: "ForEachFunc option"
  table :: "string \<rightharpoonup> ReferenceName list"
  updater :: Updater
  events :: "event list"

fun calls_of :: "event list \<Rightarrow> cb_call list" where
  "calls_of [] = []"
| "calls_of (ForEachCalled old new present # es) = (old, new, present) # calls_of es"
| "calls_of (DeleteStaged name # es) = calls_of es"

text \<open>The loop \<open>for _, ref := range refs\<close> of \<open>processEntry\<close>.\<close>

fun deleteRefs :: "Cleaner \<Rightarrow> ReferenceName list \<Rightarrow> error option \<times> Cleaner" where
  "deleteRefs c [] = (None, c)"
| "deleteRefs c (name # names) =
     (case stage (Delete name) (updater c) of
        (Some e, u) \<Rightarrow> (Some e, c\<lparr>updater := u\<rparr>)
      | (None, u) \<Rightarrow>
          deleteRefs (c\<lparr>updater := u, events := events c @ [DeleteStaged name]\<rparr>) names)"

text \<open>The guarded call \<open>if c.forEach != nil { ... }\<close> of \<open>processEntry\<close>.\<close>

definition callForEach :: "Cleaner \<Rightarrow> string \<Rightarrow> string \<Rightarrow> bool \<Rightarrow> error option \<times> Cleaner" where
  "callForEach c oldSHA newSHA isPresent =
     (case forEach c of
        None \<Rightarrow> (None, c)
      | Some f \<Rightarrow>
          (let c' = c\<lparr>events := events c @ [ForEachCalled oldSHA newSHA isPresent]\<rparr>
           in (f (calls_of (events c')), c')))"

definition processEntry :: "Cleaner \<Rightarrow> string \<Rightarrow> string \<Rightarrow> error option \<times> Cleaner" where
  "processEntry c oldSHA newSHA =
     (case callForEach c oldSHA newSHA (table c oldSHA \<noteq> None) of
        (Some e, c') \<Rightarrow> (Some e, c')
      | (None, c') \<Rightarrow>
          (case table c oldSHA of
             None \<Rightarrow> (None, c')
           | Some names \<Rightarrow> deleteRefs c' names))"

definition filterRepoCommitMapHeader :: string where
  "filterRepoCommitMapHeader = ''old                                      new''"

text \<open>
  The body of \<open>ApplyObjectMap\<close>'s loop over the scanner's tokens. The counter \<open>i\<close> is an
  \<open>int64\<close> in the source; it counts tokens, so it stays far below \<open>2^63\<close> and is
  modelled as an unbounded integer.
\<close>

fun applyLines :: "Cleaner \<Rightarrow> int \<Rightarrow> string list \<Rightarrow> error option \<times> Cleaner" where
  "applyLines c i [] = (None, c)"
| "applyLines c i (line # rest) =
     (if line = filterRepoCommitMapHeader then applyLines c (i + 1) rest
      else
        let shas = SplitN line space 2 in
        if length shas \<noteq> 2 then (Some (ErrInvalidObjectMap i), c)
        else if length (shas ! 0) \<noteq> 40 then (Some (ErrInvalidObjectMap i), c)
        else if length (shas ! 1) \<noteq> 40 then (Some (ErrInvalidObjectMap i), c)
        else if shas ! 0 = shas ! 1 then applyLines c (i + 1) rest
        else
          (case processEntry c (shas ! 0) (shas ! 1) of
             (Some e, c') \<Rightarrow> (Some e, c')
           | (None, c') \<Rightarrow> applyLines c' (i + 1) rest))"

text \<open>
  \<open>ApplyObjectMap\<close>: the loop runs while \<open>scanner.Scan()\<close> is true; the source does
  not look at \<open>scanner.Err()\<close> afterwards, so the second component of \<^const>\<open>scan\<close> is
  dropped. Then \<open>c.updater.Commit()\<close>.
\<close>

definition ApplyObjectMap ::
  "Cleaner \<Rightarrow> reader \<Rightarrow> repository \<Rightarrow> error option \<times> Cleaner \<times> repository" where
  "ApplyObjectMap c rd repo =
     (case applyLines c 0 (fst (scan rd)) of
        (Some e, c') \<Rightarrow> (Some e, c', repo)
      | (None, c') \<Rightarrow>
          (case Commit (updater c') repo of
             (r, u, repo') \<Rightarrow> (r, c'\<lparr>updater := u\<rparr>, repo')))"

text \<open>
  \<open>buildLookupTable\<close>, over the lines \<open>git for-each-ref\<close> prints in the format
  \<open>%(objectname) %(refname)\<close>: a map from an object ID to the references that point to
  it, in the order of the listing.
\<close>

fun buildLookupTable ::
  "(string \<rightharpoonup> ReferenceName list) \<Rightarrow> string list \<Rightarrow> error + (string \<rightharpoonup> ReferenceName list)" where
  "buildLookupTable out [] = Inr out"
| "buildLookupTable out (line # rest) =
     (let parts = SplitN line space 2 in
      if length parts \<noteq> 2 then Inl (ErrOther ''failed to parse git refs'')
      else if length (parts ! 0) \<noteq> 40 then Inl (ErrOther ''failed to parse git refs'')
      else
        buildLookupTable
          (out(parts ! 0 \<mapsto> (case out (parts ! 0) of None \<Rightarrow> [] | Some names \<Rightarrow> names) @ [parts ! 1]))
          rest)"

section \<open>Object Pool Manager\<close>

definition sourceRefNamespace :: string where
  "sourceRefNamespace = ''refs/remotes/origin''"

definition danglingObjectNamespace :: string where
  "danglingObjectNamespace = ''refs/dangling/''"

text \<open>
  What running a Git subcommand to its end gives: the error of \<open>ExecAndWait\<close> (\<open>None\<close>
  when the process exits with status zero) and the text the process wrote to its
  standard error. The caller sees that text only if it passed \<open>git.WithStderr\<close>.
\<close>

record exec_result =
  exit_error :: "error option"
  stderr_text :: string

text \<open>
  The collaborators of \<open>FetchFromOrigin\<close>, which the object pool calls and does not
  own: \<open>o.Init\<close>, \<open>origin.Path\<close>, the housekeeping manager's \<open>CleanStaleData\<close>, the
  Git processes, and \<open>updateref.New\<close>. \<open>fetch_effect\<close> is what a successful
  \<open>git fetch\<close> does to the pool repository; \<open>fsck_stdout\<close> is what \<open>git fsck\<close> prints
  for a repository. \<open>logStats\<close> measures directory sizes and counts references for
  the log and changes nothing; only whether it fails matters to its caller, so its
  outcome is a collaborator's as well (\<open>log_stats\<close>, by the \<open>when\<close> argument).
\<close>

record pool_env =
  init_result :: "error option"
  origin_path :: "error + string"
  clean_stale_data :: "error option"
  log_stats :: "string \<Rightarrow> error option"
  fetch_run :: exec_result
  fetch_effect :: "repository \<Rightarrow> repository"
  fsck_start :: "error option"
  fsck_stdout :: "repository \<Rightarrow> reader"
  fsck_wait :: "error option"
  updater_new :: "error option"
  pack_refs_run :: exec_result
  repack_run :: exec_result

text \<open>
  The object pool: its repository, and the names of the Git subcommands it has invoked
  through \<open>Exec\<close> and \<open>ExecAndWait\<close>, in order. The source keeps no such log; the
  field \<open>executed\<close> records it so that "not retried" can be stated.
\<close>

record ObjectPool =
  Repo :: repository
  executed :: "string list"

text \<open>The loop \<open>for scanner.Scan()\<close> of \<open>rescueDanglingObjects\<close>.\<close>

fun stageDangling :: "Updater \<Rightarrow> string list \<Rightarrow> error option \<times> Updater" where
  "stageDangling u [] = (None, u)"
| "stageDangling u (text # rest) =
     (let split = SplitN text space 3 in
      if length split \<noteq> 3 then stageDangling u rest
      else if split ! 0 \<noteq> ''dangling'' then stageDangling u rest
      else
        (case stage (Create (danglingObjectNamespace @ split ! 2) (split ! 2)) u of
           (Some e, u') \<Rightarrow> (Some e, u')
         | (None, u') \<Rightarrow> stageDangling u' rest))"

definition rescueDanglingObjects :: "pool_env \<Rightarrow> ObjectPool \<Rightarrow> error option \<times> ObjectPool" where
  "rescueDanglingObjects env pool =
     (let pool1 = pool\<lparr>executed := executed pool @ [''fsck'']\<rparr> in
      case fsck_start env of
        Some e \<Rightarrow> (Some e, pool1)
      | None \<Rightarrow>
          (case updater_new env of
             Some e \<Rightarrow> (Some e, pool1)
           | None \<Rightarrow>
               (case stageDangling (New True) (fst (scan (fsck_stdout env (Repo pool)))) of
                  (Some e, u) \<Rightarrow> (Some e, pool1)
                | (None, u) \<Rightarrow>
                    (case snd (scan (fsck_stdout env (Repo pool))) of
                       Some e \<Rightarrow> (Some e, pool1)
                     | None \<Rightarrow>
                         (case fsck_wait env of
                            Some e \<Rightarrow> (Some (ErrGitFsck e), pool1)
                          | None \<Rightarrow>
                              (case Commit u (Repo pool1) of
                                 (r, u', repo') \<Rightarrow> (r, pool1\<lparr>Repo := repo'\<rparr>)))))))"

definition repackPool :: "pool_env \<Rightarrow> ObjectPool \<Rightarrow> error option \<times> ObjectPool" where
  "repackPool env pool =
     (let pool1 = pool\<lparr>executed := executed pool @ [''repack'']\<rparr> in
      case exit_error (repack_run env) of
        Some e \<Rightarrow> (Some e, pool1)
      | None \<Rightarrow> (None, pool1))"

definition FetchFromOrigin :: "pool_env \<Rightarrow> ObjectPool \<Rightarrow> error option \<times> ObjectPool" where
  "FetchFromOrigin env pool =
     (case init_result env of
        Some e \<Rightarrow> (Some e, pool)
      | None \<Rightarrow>
     (case origin_path env of
        Inl e \<Rightarrow> (Some e, pool)
      | Inr originPath \<Rightarrow>
     (case clean_stale_data env of
        Some e \<Rightarrow> (Some e, pool)
      | None \<Rightarrow>
     (case log_stats env ''before fetch'' of
        Some e \<Rightarrow> (Some e, pool)
      | None \<Rightarrow>
     (let pool1 = pool\<lparr>executed := executed pool @ [''fetch'']\<rparr> in
      case exit_error (fetch_run env) of
        Some e \<Rightarrow> (Some (ErrFetchIntoObjectPool e (stderr_text (fetch_run env))), pool1)
      | None \<Rightarrow>
     (case rescueDanglingObjects env (pool1\<lparr>Repo := fetch_effect env (Repo pool1)\<rparr>) of
        (Some e, pool2) \<Rightarrow> (Some e, pool2)
      | (None, pool2) \<Rightarrow>
     (case log_stats env ''after fetch'' of
        Some e \<Rightarrow> (Some e, pool2)
      | None \<Rightarrow>
     (let pool3 = pool2\<lparr>executed := executed pool2 @ [''pack-refs'']\<rparr> in
      case exit_error (pack_refs_run env) of
        Some e \<Rightarrow> (Some e, pool3)
      | None \<Rightarrow> repackPool env pool3))))))))"

section \<open>Merge Engine\<close>

text \<open>
  Only the tests of the merge engine are among the source files
  (\<open>TestMerge_missingArguments\<close>, \<open>TestMerge_invalidRepositoryPath\<close>,
  \<open>TestMerge_trees\<close>, \<open>TestMerge_squash\<close>, \<open>TestMerge_recursive\<close>); the engine itself
  (\<open>git2go.MergeCommand\<close>, its validation, and the merge subcommand) is not. The
  data types follow the fields the tests set; the operations follow the spec.
\<close>

datatype timestamp = ZeroTime | Date int

record MergeCommand =
  Repository :: string
  AuthorName :: string
  AuthorMail :: string
  AuthorDate :: timestamp
  CommitterName :: string
  CommitterMail :: string
  CommitterDate :: timestamp
  Message :: string
  Ours :: string
  Theirs :: string
  Squash :: bool

record MergeResult =
  CommitID :: string

datatype merge_error =
    InvalidParameters string
  | CouldNotOpenRepository string
  | CouldNotResolve string
  | ConflictingFilesError "string list"

text \<open>
  The text of an error, as the tests compare it: \<open>"merge: invalid parameters: missing
  repository"\<close>, \<open>"merge: could not open repository"\<close> (the test asks only that the
  text contains it).
\<close>

fun error_text :: "merge_error \<Rightarrow> string" where
  "error_text (InvalidParameters what) = ''merge: invalid parameters: '' @ what"
| "error_text (CouldNotOpenRepository path) = ''merge: could not open repository: '' @ path"
| "error_text (CouldNotResolve revision) = ''merge: could not resolve revision: '' @ revision"
| "error_text (ConflictingFilesError files) = ''merge: there are conflicting files''"

text \<open>
  Modelled from the spec: the validation of a \<open>MergeCommand\<close> is not among the source
  files. The spec's words: validation order (first failing check wins, the message names
  the missing field exactly): repository path, author name, author mail, message, ours,
  theirs, then, if any committer field is set, committer name, committer mail, committer
  date. The result is the name of the first missing field, \<open>None\<close> for a valid command.
\<close>

definition verify :: "MergeCommand \<Rightarrow> string option" where
  "verify m =
     (if Repository m = [] then Some ''missing repository''
      else if AuthorName m = [] then Some ''missing author name''
      else if AuthorMail m = [] then Some ''missing author mail''
      else if Message m = [] then Some ''missing message''
      else if Ours m = [] then Some ''missing ours''
      else if Theirs m = [] then Some ''missing theirs''
      else if CommitterName m \<noteq> [] \<or> CommitterMail m \<noteq> [] \<or> CommitterDate m \<noteq> ZeroTime then
        (if CommitterName m = [] then Some ''missing committer name''
         else if CommitterMail m = [] then Some ''missing committer mail''
         else if CommitterDate m = ZeroTime then Some ''missing committer date''
         else None)
      else None)"

type_synonym tree = "(string \<times> string) list"

record signature =
  sig_name :: string
  sig_mail :: string
  sig_when :: timestamp

record commit =
  commit_tree :: tree
  commit_parents :: "ObjectID list"
  commit_author :: signature
  commit_committer :: signature
  commit_message :: string

text \<open>
  A repository as the merge engine sees it: the revisions that resolve, the commits, and
  what the underlying Git library computes and the engine uses without reimplementing:
  the tree of the merge base of two commits (a virtual base where the history is
  criss-cross), the content-level merge of one path (\<open>None\<close> for a content conflict),
  and the object ID of a commit object.
\<close>

record git_repository =
  revisions :: "string \<rightharpoonup> ObjectID"
  commits :: "ObjectID \<rightharpoonup> commit"
  merge_base_tree :: "ObjectID \<Rightarrow> ObjectID \<Rightarrow> tree"
  merge_file :: "string \<Rightarrow> string option \<Rightarrow> string option \<Rightarrow> string option \<Rightarrow> string option"
  object_id :: "commit \<Rightarrow> ObjectID"

text \<open>
  The repositories by path, and the paths the engine has tried to open, in order (a log
  the engine does not keep, recorded so that "before any repository is opened" can be
  stated).
\<close>

record merge_world =
  repositories :: "string \<rightharpoonup> git_repository"
  opened :: "string list"

datatype path_result = Resolved "string option" | Conflicted

text \<open>
  Modelled from the spec: the tree-level three-way merge is not among the source files.
  The spec's words: a three-way merge of \<open>ours\<close> and \<open>theirs\<close> against the resolved
  base; a merge whose two sides modify disjoint paths relative to the base succeeds and
  keeps both modifications; a path both sides modify differently is a content conflict
  unless the content-level merge resolves it.
\<close>

definition merge_path ::
  "(string \<Rightarrow> string option \<Rightarrow> string option \<Rightarrow> string option \<Rightarrow> string option) \<Rightarrow>
   tree \<Rightarrow> tree \<Rightarrow> tree \<Rightarrow> string \<Rightarrow> path_result" where
  "merge_path mf base ours theirs p =
     (let b = map_of base p; x = map_of ours p; y = map_of theirs p in
      if x = y then Resolved x
      else if b = x then Resolved y
      else if b = y then Resolved x
      else
        (case mf p b x y of
           Some content \<Rightarrow> Resolved (Some content)
         | None \<Rightarrow> Conflicted))"

text \<open>
  Modelled from the spec: the spec's words: if any path has unresolved content
  conflicts, fail with a conflict error enumerating every conflicting path (sorted,
  deduplicated) rather than stopping at the first conflict; otherwise the result is the
  merged tree.
\<close>

definition merge_trees ::
  "(string \<Rightarrow> string option \<Rightarrow> string option \<Rightarrow> string option \<Rightarrow> string option) \<Rightarrow>
   tree \<Rightarrow> tree \<Rightarrow> tree \<Rightarrow> string list + tree" where
  "merge_trees mf base ours theirs =
     (let paths = remdups (map fst ours @ map fst theirs);
          conflicts = filter (\<lambda>p. merge_path mf base ours theirs p = Conflicted) paths
      in
        if conflicts \<noteq> [] then Inl (sort (remdups conflicts))
        else
          Inr (concat (map (\<lambda>p. case merge_path mf base ours theirs p of
                                   Resolved (Some content) \<Rightarrow> [(p, content)]
                                 | _ \<Rightarrow> []) paths)))"

text \<open>
  Modelled from the spec: resolving a revision of the command to a commit of the
  repository is not among the source files. The spec's words: resolve \<open>ours\<close> and
  \<open>theirs\<close> to commits.
\<close>

definition resolve :: "git_repository \<Rightarrow> string \<Rightarrow> (ObjectID \<times> commit) option" where
  "resolve repo revision =
     (case revisions repo revision of
        None \<Rightarrow> None
      | Some oid \<Rightarrow> (case commits repo oid of None \<Rightarrow> None | Some c \<Rightarrow> Some (oid, c)))"

text \<open>
  Modelled from the spec: \<open>Merge\<close> is not among the source files. The spec's words:
  validation failures are returned before any repository is opened; opening the named
  repository with an invalid or nonexistent path fails with a distinct "could not open
  repository" error, checked after parameter validation; resolve \<open>ours\<close> and \<open>theirs\<close>
  to commits; merge the trees against the resolved base; on conflicts fail with the
  conflict error; otherwise write the resulting tree and create a commit: two parents
  (\<open>ours\<close>, \<open>theirs\<close>) in non-squash mode, exactly one parent (\<open>ours\<close>) in squash mode;
  author and committer fields and timestamps are taken verbatim from the command; when
  committer fields are absent, the committer defaults to the author; the output is the
  ID of the new commit object.
\<close>

definition Merge :: "merge_world \<Rightarrow> MergeCommand \<Rightarrow> (merge_error + MergeResult) \<times> merge_world" where
  "Merge w m =
     (case verify m of
        Some what \<Rightarrow> (Inl (InvalidParameters what), w)
      | None \<Rightarrow>
     (let w1 = w\<lparr>opened := opened w @ [Repository m]\<rparr> in
      case repositories w (Repository m) of
        None \<Rightarrow> (Inl (CouldNotOpenRepository (Repository m)), w1)
      | Some repo \<Rightarrow>
     (case resolve repo (Ours m) of
        None \<Rightarrow> (Inl (CouldNotResolve (Ours m)), w1)
      | Some (ours_id, ours) \<Rightarrow>
     (case resolve repo (Theirs m) of
        None \<Rightarrow> (Inl (CouldNotResolve (Theirs m)), w1)
      | Some (theirs_id, theirs) \<Rightarrow>
     (case merge_trees (merge_file repo) (merge_base_tree repo ours_id theirs_id)
             (commit_tree ours) (commit_tree theirs) of
        Inl conflicts \<Rightarrow> (Inl (ConflictingFilesError conflicts), w1)
      | Inr merged \<Rightarrow>
          (let author = \<lparr>sig_name = AuthorName m, sig_mail = AuthorMail m,
                          sig_when = AuthorDate m\<rparr>;
               committer =
                 (if CommitterName m = [] then author
                  else \<lparr>sig_name = CommitterName m, sig_mail = CommitterMail m,
                         sig_when = CommitterDate m\<rparr>);
               new_commit =
                 \<lparr>commit_tree = merged,
                  commit_parents = (if Squash m then [ours_id] else [ours_id, theirs_id]),
                  commit_author = author, commit_committer = committer,
                  commit_message = Message m\<rparr>;
               oid = object_id repo new_commit
           in (Inr \<lparr>CommitID = oid\<rparr>,
               w1\<lparr>repositories := (repositories w1)
                     (Repository m \<mapsto> repo\<lparr>commits := (commits repo)(oid \<mapsto> new_commit)\<rparr>)\<rparr>)))))))"

chapter \<open>The vocabulary of the claims\<close>

section \<open>Object maps\<close>

text \<open>
  A record of an object map in the spec's words: \<open>"<40-hex-oldOID> <40-hex-newOID>"\<close>.
  The cleaner does not look for hexadecimal digits; what it checks is the shape: 40
  bytes without a space, one space, and 40 more bytes.
\<close>

definition record_well_formed :: "string \<Rightarrow> bool" where
  "record_well_formed line =
     (length line = 81 \<and> line ! 40 = space \<and> space \<notin> set (take 40 line))"

definition is_header :: "string \<Rightarrow> bool" where
  "is_header line = (line = filterRepoCommitMapHeader)"

text \<open>A malformed record: a line that is neither the header nor a well-formed record.\<close>

definition malformed :: "string \<Rightarrow> bool" where
  "malformed line = (\<not> is_header line \<and> \<not> record_well_formed line)"

text \<open>
  The lines of an object map that are processed as entries, as \<open>(oldOID, newOID)\<close>:
  every record before the first malformed one that is neither the header nor a no-op
  (old = new).
\<close>

fun processed :: "string list \<Rightarrow> (string \<times> string) list" where
  "processed [] = []"
| "processed (line # rest) =
     (if line = filterRepoCommitMapHeader then processed rest
      else if \<not> record_well_formed line then []
      else if take 40 line = drop 41 line then processed rest
      else (take 40 line, drop 41 line) # processed rest)"

definition refs_of :: "Cleaner \<Rightarrow> string \<Rightarrow> ReferenceName list" where
  "refs_of c old = (case table c old of None \<Rightarrow> [] | Some names \<Rightarrow> names)"

text \<open>
  What the claim about the callback expects of one processed line: the callback is
  called once, with whether the old OID has references, and only then the deletions of
  its references are staged.
\<close>

definition entry_events :: "Cleaner \<Rightarrow> string \<times> string \<Rightarrow> event list" where
  "entry_events c = (\<lambda>(old, new).
     ForEachCalled old new (table c old \<noteq> None) # map DeleteStaged (refs_of c old))"

definition expected_events :: "Cleaner \<Rightarrow> string list \<Rightarrow> event list" where
  "expected_events c lines = concat (map (entry_events c) (processed lines))"

text \<open>An error with its line number blanked, to compare outcomes up to the line number.\<close>

fun forget_line :: "error \<Rightarrow> error" where
  "forget_line (ErrInvalidObjectMap i) = ErrInvalidObjectMap 0"
| "forget_line e = e"

text \<open>The state of a cleaner after its callback was called for an entry.\<close>

definition called :: "Cleaner \<Rightarrow> string \<Rightarrow> string \<Rightarrow> Cleaner" where
  "called c old new = c\<lparr>events := events c @ [ForEachCalled old new (table c old \<noteq> None)]\<rparr>"

text \<open>The state of a cleaner after the deletions of \<open>names\<close> were staged.\<close>

definition stageDeletes :: "Cleaner \<Rightarrow> ReferenceName list \<Rightarrow> Cleaner" where
  "stageDeletes c names =
     c\<lparr>updater := (updater c)\<lparr>staged := staged (updater c) @ map Delete names\<rparr>,
       events := events c @ map DeleteStaged names\<rparr>"

text \<open>The line of an object map for an entry.\<close>

definition record_line :: "string \<Rightarrow> string \<Rightarrow> string" where
  "record_line old new = old @ space # new"

text \<open>A text file of the given lines, each ended by a newline.\<close>

definition text_of_lines :: "string list \<Rightarrow> string" where
  "text_of_lines ls = concat (map (\<lambda>l. l @ [newline]) ls)"

section \<open>Example inputs\<close>

definition oidA :: string where "oidA = ''aaaaaaaaaaaaaaaaaaaaaaaaaaaaaaaaaaaaaaaa''"
definition oidB :: string where "oidB = ''bbbbbbbbbbbbbbbbbbbbbbbbbbbbbbbbbbbbbbbb''"
definition oidC :: string where "oidC = ''cccccccccccccccccccccccccccccccccccccccc''"
definition oidD :: string where "oidD = ''dddddddddddddddddddddddddddddddddddddddd''"
definition oidE :: string where "oidE = ''eeeeeeeeeeeeeeeeeeeeeeeeeeeeeeeeeeeeeeee''"

text \<open>
  A repository with one internal reference and one branch; its store and its hook accept
  everything.
\<close>

definition example_repository :: repository where
  "example_repository =
     \<lparr>refs = [''refs/keep-around/1'' \<mapsto> oidA, ''refs/heads/main'' \<mapsto> oidB],
      objects = [oidA \<mapsto> [], oidB \<mapsto> []],
      hook_invocations = [], commit_log = [],
      store_accepts = (\<lambda>rs x. True), hook_accepts = (\<lambda>xs. True)\<rparr>"

text \<open>A cleaner for it without a callback, as \<open>NewCleaner\<close> builds it.\<close>

definition example_cleaner :: Cleaner where
  "example_cleaner =
     \<lparr>forEach = None, table = [oidA \<mapsto> [''refs/keep-around/1'']],
      updater = New False, events = []\<rparr>"

text \<open>A callback that accepts its first call and fails at its second.\<close>

definition fails_at_second_call :: ForEachFunc where
  "fails_at_second_call calls = (if length calls = 2 then Some (ErrOther ''stop'') else None)"

definition example_cleaner_with_callback :: Cleaner where
  "example_cleaner_with_callback = example_cleaner\<lparr>forEach := Some fails_at_second_call\<rparr>"

text \<open>A callback that never fails.\<close>

definition never_fails :: ForEachFunc where
  "never_fails calls = None"

definition example_cleaner_with_quiet_callback :: Cleaner where
  "example_cleaner_with_quiet_callback = example_cleaner\<lparr>forEach := Some never_fails\<rparr>"

text \<open>
  An object map: the header, a rewritten commit that has an internal reference, an
  unchanged commit, and a rewritten commit without references.
\<close>

definition example_lines :: "string list" where
  "example_lines =
     [filterRepoCommitMapHeader, record_line oidA oidB, record_line oidC oidC,
      record_line oidD oidE]"

definition example_map :: reader where
  "example_map = \<lparr>rd_data = text_of_lines example_lines, rd_err = None\<rparr>"

text \<open>The example map with a line added that is no record.\<close>

definition bad_line :: string where
  "bad_line = ''invalid-data here as you can see''"

definition bad_map :: reader where
  "bad_map = \<lparr>rd_data = text_of_lines (example_lines @ [bad_line]), rd_err = None\<rparr>"

definition headerless_bad_map :: reader where
  "headerless_bad_map =
     \<lparr>rd_data = text_of_lines [record_line oidA oidB, record_line oidC oidC,
                                record_line oidD oidE, bad_line],
      rd_err = None\<rparr>"

text \<open>An object map that is a single line, and no record.\<close>

definition garbage_map :: reader where
  "garbage_map = \<lparr>rd_data = bad_line, rd_err = None\<rparr>"

text \<open>
  An object map whose first line is a record and whose second line is
  \<open>MaxScanTokenSize\<close> bytes long.
\<close>

definition too_long_map :: reader where
  "too_long_map =
     \<lparr>rd_data = text_of_lines [record_line oidA oidB] @ replicate MaxScanTokenSize (CHR ''f''),
      rd_err = None\<rparr>"

section \<open>Object pools\<close>

text \<open>
  The line \<open>git fsck --dangling\<close> prints for a dangling object, for example
  \<open>dangling commit 5bab3f...\<close>: the word "dangling", the type of the object and its ID.
\<close>

definition dangling_line :: "string \<Rightarrow> ObjectID \<Rightarrow> string" where
  "dangling_line type oid = ''dangling '' @ type @ space # oid"

text \<open>The object a line of the scan reports as dangling, if it reports one.\<close>

definition reported :: "string \<Rightarrow> ObjectID option" where
  "reported line =
     (case cut space line of
        None \<Rightarrow> None
      | Some (word, rest) \<Rightarrow>
          if word = ''dangling'' then
            (case cut space rest of None \<Rightarrow> None | Some (type, oid) \<Rightarrow> Some oid)
          else None)"

text \<open>The creation of the rescue reference of an object.\<close>

definition rescue :: "ObjectID \<Rightarrow> ref_op" where
  "rescue oid = Create (danglingObjectNamespace @ oid) oid"

text \<open>
  \<open>reaches repo a b\<close>: object \<open>b\<close> is \<open>a\<close> or is referred to, directly or through other
  objects, by \<open>a\<close>.
\<close>

inductive reaches :: "repository \<Rightarrow> ObjectID \<Rightarrow> ObjectID \<Rightarrow> bool" for repo :: repository where
  self: "reaches repo a a"
| step: "reaches repo a b \<Longrightarrow> objects repo b = Some children \<Longrightarrow> c \<in> set children \<Longrightarrow>
         reaches repo a c"

text \<open>
  An object is reachable from a set of reference names when one of these references
  points to an object that reaches it.
\<close>

definition reachable_from :: "(ReferenceName \<Rightarrow> bool) \<Rightarrow> repository \<Rightarrow> ObjectID \<Rightarrow> bool" where
  "reachable_from names repo oid =
     (\<exists>name root. names name \<and> refs repo name = Some root \<and> reaches repo root oid)"

definition reachable :: "repository \<Rightarrow> ObjectID \<Rightarrow> bool" where
  "reachable repo oid = reachable_from (\<lambda>name. True) repo oid"

text \<open>
  The two namespaces of a pool repository: where the fetch puts the references of the
  origin (the refspec of the fetch is \<open>+refs/*:refs/remotes/origin/*\<close>), and the rescue
  namespace.
\<close>

definition in_pool_namespaces :: "ReferenceName \<Rightarrow> bool" where
  "in_pool_namespaces name =
     (prefix (sourceRefNamespace @ ''/'') name \<or> prefix danglingObjectNamespace name)"

text \<open>Every reference \<open>refs/dangling/<oid>\<close> points to the object \<open><oid>\<close>.\<close>

definition rescue_refs_consistent :: "(ReferenceName \<rightharpoonup> ObjectID) \<Rightarrow> bool" where
  "rescue_refs_consistent rs =
     (\<forall>oid target. rs (danglingObjectNamespace @ oid) = Some target \<longrightarrow> target = oid)"

text \<open>
  The scan finds every object that no reference reaches: it reports the object itself
  as dangling, or a dangling object that reaches it.
\<close>

definition scan_finds_unreachable :: "repository \<Rightarrow> string list \<Rightarrow> bool" where
  "scan_finds_unreachable repo lines =
     (\<forall>oid \<in> dom (objects repo). \<not> reachable repo oid \<longrightarrow>
        (\<exists>type tip. space \<notin> set type \<and> dangling_line type tip \<in> set lines \<and>
                    reaches repo tip oid))"

text \<open>
  Whether an error carries the text a Git process wrote to its standard error: only the
  error \<open>FetchFromOrigin\<close> builds with \<open>helper.ErrInternalf(..., stderr.String())\<close> does.
\<close>

fun carries_stderr :: "error \<Rightarrow> string \<Rightarrow> bool" where
  "carries_stderr (ErrFetchIntoObjectPool e captured) text = (captured = text)"
| "carries_stderr e text = False"

text \<open>
  An example: collaborators that all succeed; the scan reports one dangling commit,
  between two lines that report nothing.
\<close>

definition example_scan_lines :: "string list" where
  "example_scan_lines =
     [''Checking connectivity: done.'', dangling_line ''commit'' oidC,
      ''notice: HEAD points to an unborn branch (master)'']"

definition example_fsck_output :: reader where
  "example_fsck_output = \<lparr>rd_data = text_of_lines example_scan_lines, rd_err = None\<rparr>"

definition example_env :: pool_env where
  "example_env =
     \<lparr>init_result = None, origin_path = Inr ''/repos/origin.git'', clean_stale_data = None,
      log_stats = (\<lambda>when. None),
      fetch_run = \<lparr>exit_error = None, stderr_text = []\<rparr>,
      fetch_effect = (\<lambda>repo. repo\<lparr>refs := (refs repo)(''refs/remotes/origin/heads/main'' \<mapsto> oidA),
                                   objects := (objects repo)(oidA \<mapsto> [], oidC \<mapsto> [])\<rparr>),
      fsck_start = None, fsck_stdout = (\<lambda>repo. example_fsck_output), fsck_wait = None,
      updater_new = None,
      pack_refs_run = \<lparr>exit_error = None, stderr_text = []\<rparr>,
      repack_run = \<lparr>exit_error = None, stderr_text = []\<rparr>\<rparr>"

text \<open>The same collaborators, with a \<open>git repack\<close> that fails.\<close>

definition example_env_repack_fails :: pool_env where
  "example_env_repack_fails =
     example_env\<lparr>repack_run :=
       \<lparr>exit_error = Some (ErrOther ''exit status 128''),
        stderr_text = ''fatal: unable to create temporary file''\<rparr>\<rparr>"

text \<open>The same collaborators, with a \<open>git fetch\<close> that fails.\<close>

definition example_env_fetch_fails :: pool_env where
  "example_env_fetch_fails =
     example_env\<lparr>fetch_run :=
       \<lparr>exit_error = Some (ErrOther ''exit status 128''),
        stderr_text = ''fatal: could not read from remote repository''\<rparr>\<rparr>"

text \<open>An empty pool, and its repository after the fetch of the example.\<close>

definition example_pool :: ObjectPool where
  "example_pool =
     \<lparr>Repo = \<lparr>refs = Map.empty, objects = Map.empty, hook_invocations = [], commit_log = [],
              store_accepts = (\<lambda>rs x. True), hook_accepts = (\<lambda>xs. True)\<rparr>,
      executed = []\<rparr>"

definition example_fetched :: repository where
  "example_fetched = fetch_effect example_env (Repo example_pool)"

section \<open>Merge commands\<close>

text \<open>
  The required fields of a command in the order the spec gives them, each with whether
  it is missing: repository path, author name, author mail, message, ours, theirs, and,
  only when at least one committer field is set, committer name, committer mail,
  committer date.
\<close>

definition required_fields :: "MergeCommand \<Rightarrow> (string \<times> bool) list" where
  "required_fields m =
     [(''repository'', Repository m = []), (''author name'', AuthorName m = []),
      (''author mail'', AuthorMail m = []), (''message'', Message m = []),
      (''ours'', Ours m = []), (''theirs'', Theirs m = [])] @
     (if CommitterName m \<noteq> [] \<or> CommitterMail m \<noteq> [] \<or> CommitterDate m \<noteq> ZeroTime then
        [(''committer name'', CommitterName m = []), (''committer mail'', CommitterMail m = []),
         (''committer date'', CommitterDate m = ZeroTime)]
      else [])"

definition first_missing :: "MergeCommand \<Rightarrow> string option" where
  "first_missing m = map_option fst (find snd (required_fields m))"

text \<open>
  The requests of \<open>TestMerge_missingArguments\<close> and \<open>TestMerge_invalidRepositoryPath\<close>.
  A Go struct literal leaves the fields it does not name at their zero values.
\<close>

definition zero_command :: MergeCommand where
  "zero_command =
     \<lparr>Repository = [], AuthorName = [], AuthorMail = [], AuthorDate = ZeroTime,
      CommitterName = [], CommitterMail = [], CommitterDate = ZeroTime,
      Message = [], Ours = [], Theirs = [], Squash = False\<rparr>"

definition repoPath :: string where
  "repoPath = ''/storage/repo.git''"

definition request_missing_repository :: MergeCommand where
  "request_missing_repository =
     zero_command\<lparr>AuthorName := ''Foo'', AuthorMail := ''foo@example.com'', Message := ''Foo'',
       Ours := ''HEAD'', Theirs := ''HEAD''\<rparr>"

definition request_missing_author_name :: MergeCommand where
  "request_missing_author_name =
     zero_command\<lparr>Repository := repoPath, AuthorMail := ''foo@example.com'', Message := ''Foo'',
       Ours := ''HEAD'', Theirs := ''HEAD''\<rparr>"

definition request_missing_author_mail :: MergeCommand where
  "request_missing_author_mail =
     zero_command\<lparr>Repository := repoPath, AuthorName := ''Foo'', Message := ''Foo'',
       Ours := ''HEAD'', Theirs := ''HEAD''\<rparr>"

definition request_missing_message :: MergeCommand where
  "request_missing_message =
     zero_command\<lparr>Repository := repoPath, AuthorName := ''Foo'', AuthorMail := ''foo@example.com'',
       Ours := ''HEAD'', Theirs := ''HEAD''\<rparr>"

definition request_missing_ours :: MergeCommand where
  "request_missing_ours =
     zero_command\<lparr>Repository := repoPath, AuthorName := ''Foo'', AuthorMail := ''foo@example.com'',
       Message := ''Foo'', Theirs := ''HEAD''\<rparr>"

definition request_missing_theirs :: MergeCommand where
  "request_missing_theirs =
     zero_command\<lparr>Repository := repoPath, AuthorName := ''Foo'', AuthorMail := ''foo@example.com'',
       Message := ''Foo'', Ours := ''HEAD''\<rparr>"

definition request_missing_committer_mail :: MergeCommand where
  "request_missing_committer_mail =
     zero_command\<lparr>Repository := repoPath, AuthorName := ''Foo'', AuthorMail := ''foo@example.com'',
       CommitterName := ''Bar'', Message := ''Foo'', Theirs := ''HEAD'', Ours := ''HEAD''\<rparr>"

definition request_missing_committer_name :: MergeCommand where
  "request_missing_committer_name =
     zero_command\<lparr>Repository := repoPath, AuthorName := ''Foo'', AuthorMail := ''foo@example.com'',
       CommitterMail := ''bar@example.com'', Message := ''Foo'', Theirs := ''HEAD'',
       Ours := ''HEAD''\<rparr>"

definition request_missing_committer_date :: MergeCommand where
  "request_missing_committer_date =
     zero_command\<lparr>Repository := repoPath, AuthorName := ''Foo'', AuthorMail := ''foo@example.com'',
       CommitterName := ''Bar'', CommitterMail := ''bar@example.com'', Message := ''Foo'',
       Theirs := ''HEAD'', Ours := ''HEAD''\<rparr>"

definition request_invalid_repository_path :: MergeCommand where
  "request_invalid_repository_path =
     zero_command\<lparr>Repository := ''/does/not/exist'', AuthorName := ''Foo'',
       AuthorMail := ''foo@example.com'', Message := ''Foo'', Ours := ''HEAD'',
       Theirs := ''HEAD''\<rparr>"

text \<open>
  The repository of \<open>TestMerge_squash\<close>: a base commit, \<open>ours\<close> on top of it, and
  \<open>theirs1\<close> and \<open>theirs2\<close> on the other side. The object IDs are names here; the
  content-level merge of \<open>file.txt\<close> is the one result the test states, the underlying
  library's merge of \<open>ours\<close> and \<open>theirs2\<close> against the base.
\<close>

definition test_signature :: signature where
  "test_signature = \<lparr>sig_name = ''Test'', sig_mail = ''test@example.com'', sig_when = Date 0\<rparr>"

definition test_commit :: "tree \<Rightarrow> ObjectID list \<Rightarrow> commit" where
  "test_commit t ps =
     \<lparr>commit_tree = t, commit_parents = ps, commit_author = test_signature,
      commit_committer = test_signature, commit_message = ''message''\<rparr>"

definition squash_repository :: git_repository where
  "squash_repository =
     \<lparr>revisions = [''base'' \<mapsto> ''base'', ''ours'' \<mapsto> ''ours'', ''theirs1'' \<mapsto> ''theirs1'',
                   ''theirs2'' \<mapsto> ''theirs2''],
      commits = [''base'' \<mapsto> test_commit [(''file.txt'', ''b\<newline>c'')] [],
                 ''ours'' \<mapsto> test_commit [(''file.txt'', ''a\<newline>b\<newline>c'')] [''base''],
                 ''theirs1'' \<mapsto> test_commit [(''file.txt'', ''b\<newline>c\<newline>d'')] [''base''],
                 ''theirs2'' \<mapsto> test_commit [(''file.txt'', ''b\<newline>c\<newline>d\<newline>e'')] [''theirs1'']],
      merge_base_tree = (\<lambda>a b. [(''file.txt'', ''b\<newline>c'')]),
      merge_file = (\<lambda>p b x y.
        if b = Some ''b\<newline>c'' \<and> x = Some ''a\<newline>b\<newline>c'' \<and> y = Some ''b\<newline>c\<newline>d\<newline>e''
        then Some ''a\<newline>b\<newline>c\<newline>d\<newline>e'' else None),
      object_id = (\<lambda>c. ''merge-of-'' @ concat (commit_parents c))\<rparr>"

definition squash_world :: merge_world where
  "squash_world = \<lparr>repositories = [repoPath \<mapsto> squash_repository], opened = []\<rparr>"

definition squash_request :: MergeCommand where
  "squash_request =
     zero_command\<lparr>Repository := repoPath, AuthorName := ''John Doe'',
       AuthorMail := ''john.doe@example.com'', AuthorDate := Date 1596087950,
       Message := ''Merge message'', Ours := ''ours'', Theirs := ''theirs2'', Squash := True\<rparr>"

text \<open>
  The repository of the first case of \<open>TestMerge_trees\<close>, "trivial merge succeeds": the
  base, \<open>ours\<close> and \<open>theirs\<close> all hold the file \<open>file\<close> with the content \<open>a\<close>.
\<close>

definition trivial_repository :: git_repository where
  "trivial_repository =
     \<lparr>revisions = [''base'' \<mapsto> ''base'', ''ours'' \<mapsto> ''ours'', ''theirs'' \<mapsto> ''theirs''],
      commits = [''base'' \<mapsto> test_commit [(''file'', ''a'')] [],
                 ''ours'' \<mapsto> test_commit [(''file'', ''a'')] [''base''],
                 ''theirs'' \<mapsto> test_commit [(''file'', ''a'')] [''base'']],
      merge_base_tree = (\<lambda>a b. [(''file'', ''a'')]),
      merge_file = (\<lambda>p b x y. None),
      object_id = (\<lambda>c. ''merge-of-'' @ concat (commit_parents c))\<rparr>"

definition trivial_world :: merge_world where
  "trivial_world = \<lparr>repositories = [repoPath \<mapsto> trivial_repository], opened = []\<rparr>"

definition trivial_request :: MergeCommand where
  "trivial_request =
     zero_command\<lparr>Repository := repoPath, AuthorName := ''John Doe'',
       AuthorMail := ''john.doe@example.com'', AuthorDate := Date 1596087950,
       Message := ''Merge message'', Ours := ''ours'', Theirs := ''theirs''\<rparr>"

text \<open>
  The commit a merge creates from a command, the merged tree and the IDs of \<open>ours\<close> and
  \<open>theirs\<close>, in the spec's words: two parents in non-squash mode, one in squash mode;
  author and committer taken verbatim from the command, the committer defaulting to the
  author.
\<close>

definition merged_commit :: "MergeCommand \<Rightarrow> tree \<Rightarrow> ObjectID \<Rightarrow> ObjectID \<Rightarrow> commit" where
  "merged_commit m t ours_id theirs_id =
     \<lparr>commit_tree = t,
      commit_parents = (if Squash m then [ours_id] else [ours_id, theirs_id]),
      commit_author = \<lparr>sig_name = AuthorName m, sig_mail = AuthorMail m,
                        sig_when = AuthorDate m\<rparr>,
      commit_committer =
        (if CommitterName m = [] then
           \<lparr>sig_name = AuthorName m, sig_mail = AuthorMail m, sig_when = AuthorDate m\<rparr>
         else \<lparr>sig_name = CommitterName m, sig_mail = CommitterMail m,
                sig_when = CommitterDate m\<rparr>),
      commit_message = Message m\<rparr>"

definition merge_request :: MergeCommand where
  "merge_request = squash_request\<lparr>Squash := False\<rparr>"

chapter \<open>Properties\<close>

section \<open>Splitting strings\<close>
lemma cut_SomeD:
  "cut sep s = Some (before, after) \<Longrightarrow> s = before @ sep # after \<and> sep \<notin> set before"
proof (induction s arbitrary: before)
  case Nil
  then show ?case by simp
next
  case (Cons c cs)
  show ?case
  proof (cases "c = sep")
    case True
    then show ?thesis using Cons.prems by simp
  next
    case False
    then obtain b where b: "cut sep cs = Some (b, after)" and bb: "before = c # b"
      using Cons.prems by (simp split: option.splits prod.splits)
    from Cons.IH[OF b] show ?thesis using False bb by simp
  qed
qed

lemma cut_append: "sep \<notin> set before \<Longrightarrow> cut sep (before @ sep # after) = Some (before, after)"
  by (induction before) auto

lemma cut_Some_iff:
  "cut sep s = Some (before, after) \<longleftrightarrow> s = before @ sep # after \<and> sep \<notin> set before"
  using cut_SomeD cut_append by blast

lemma cut_None_iff: "cut sep s = None \<longleftrightarrow> sep \<notin> set s"
  by (induction s) (auto split: option.splits)

lemma SplitN_2:
  "SplitN s sep 2 = (case cut sep s of None \<Rightarrow> [s] | Some (before, after) \<Rightarrow> [before, after])"
  by (simp add: numeral_2_eq_2 split: option.splits)




lemma well_formed_iff:
  "record_well_formed line \<longleftrightarrow>
     (\<exists>old new. line = old @ space # new \<and> length old = 40 \<and> length new = 40 \<and> space \<notin> set old)"
proof
  assume w: "record_well_formed line"
  then have len: "length line = 81" and sp: "line ! 40 = space" and ns: "space \<notin> set (take 40 line)"
    by (simp_all add: record_well_formed_def)
  have "line = take 40 line @ line ! 40 # drop (Suc 40) line"
    by (rule id_take_nth_drop) (simp add: len)
  then have "line = take 40 line @ space # drop (Suc 40) line" by (simp only: sp)
  moreover have "length (take 40 line) = 40" "length (drop (Suc 40) line) = 40" using len by simp_all
  ultimately show "\<exists>old new. line = old @ space # new \<and> length old = 40 \<and> length new = 40 \<and> space \<notin> set old"
    using ns by blast
next
  assume "\<exists>old new. line = old @ space # new \<and> length old = 40 \<and> length new = 40 \<and> space \<notin> set old"
  then obtain old new where l: "line = old @ space # new" and lo: "length old = 40"
    and ln: "length new = 40" and ns: "space \<notin> set old" by blast
  show "record_well_formed line"
    unfolding record_well_formed_def l using lo ln ns by (simp add: nth_append)
qed

lemma well_formed_cut:
  "record_well_formed line \<longleftrightarrow>
     (\<exists>old new. cut space line = Some (old, new) \<and> length old = 40 \<and> length new = 40)"
  by (auto simp: well_formed_iff cut_Some_iff)




lemma well_formed_fields:
  assumes "cut space line = Some (old, new)" "length old = 40" "length new = 40"
  shows "take 40 line = old" "drop 41 line = new"
proof -
  have l: "line = old @ space # new" using assms(1) by (simp add: cut_Some_iff)
  show "take 40 line = old" unfolding l using assms(2) by simp
  show "drop 41 line = new" unfolding l using assms(2) by simp
qed

lemma applyLines_Cons:
  "applyLines c i (line # rest) =
     (if line = filterRepoCommitMapHeader then applyLines c (i + 1) rest
      else if \<not> record_well_formed line then (Some (ErrInvalidObjectMap i), c)
      else if take 40 line = drop 41 line then applyLines c (i + 1) rest
      else
        (case processEntry c (take 40 line) (drop 41 line) of
           (Some e, c') \<Rightarrow> (Some e, c')
         | (None, c') \<Rightarrow> applyLines c' (i + 1) rest))"
proof (cases "cut space line")
  case None
  then have "\<not> record_well_formed line" by (simp add: well_formed_cut)
  then show ?thesis using None by (simp add: SplitN_2)
next
  case (Some p)
  obtain old new where p: "p = (old, new)" by (cases p)
  show ?thesis
  proof (cases "length old = 40 \<and> length new = 40")
    case True
    then have wf: "record_well_formed line" using Some p by (simp add: well_formed_cut)
    have f: "take 40 line = old" "drop 41 line = new"
      using well_formed_fields[of line old new] Some p True by simp_all
    show ?thesis using Some p True wf f by (simp add: SplitN_2 Let_def)
  next
    case False
    then have "\<not> record_well_formed line" using Some p by (auto simp: well_formed_cut)
    then show ?thesis using Some p False by (auto simp: SplitN_2 Let_def)
  qed
qed

lemma applyLines_append:
  "applyLines c i (xs @ ys) =
     (case applyLines c i xs of
        (Some e, c') \<Rightarrow> (Some e, c')
      | (None, c') \<Rightarrow> applyLines c' (i + int (length xs)) ys)"
proof (induction xs arbitrary: c i)
  case Nil
  then show ?case by simp
next
  case (Cons x xs)
  have eq: "i + 1 + int (length xs) = i + int (length (x # xs))" by simp
  show ?case
    unfolding append_Cons applyLines_Cons[of c i x] Cons.IH eq
    by (simp split: prod.splits option.splits)
qed




lemma calls_of_append: "calls_of (xs @ ys) = calls_of xs @ calls_of ys"
  by (induction xs rule: calls_of.induct) simp_all

lemma calls_of_deletes: "calls_of (map DeleteStaged names) = []"
  by (induction names) simp_all

lemma deleteRefs_Open:
  "state (updater c) = Open \<Longrightarrow> deleteRefs c names = (None, stageDeletes c names)"
proof (induction names arbitrary: c)
  case Nil
  then show ?case by (simp add: stageDeletes_def)
next
  case (Cons name names)
  let ?c1 = "c\<lparr>updater := (updater c)\<lparr>staged := staged (updater c) @ [Delete name]\<rparr>,
               events := events c @ [DeleteStaged name]\<rparr>"
  have "deleteRefs c (name # names) = deleteRefs ?c1 names"
    using Cons.prems by (simp add: stage_def)
  also have "\<dots> = (None, stageDeletes ?c1 names)"
    using Cons.prems by (intro Cons.IH) simp
  also have "stageDeletes ?c1 names = stageDeletes c (name # names)"
    by (simp add: stageDeletes_def)
  finally show ?case .
qed

lemma deleteRefs_closed:
  "state (updater c) \<noteq> Open \<Longrightarrow> names \<noteq> [] \<Longrightarrow>
     deleteRefs c names =
       (Some (ErrOther ''updater: no operation is permitted in a terminal state''), c)"
  by (cases names) (simp_all add: stage_def)




lemma stageDeletes_Nil: "stageDeletes c [] = c"
  by (simp add: stageDeletes_def)

lemma deleteRefs_outcome:
  "deleteRefs c names = (None, stageDeletes c names) \<or>
   (\<exists>e. deleteRefs c names = (Some e, c))"
proof (cases "state (updater c) = Open")
  case True
  then show ?thesis by (simp add: deleteRefs_Open)
next
  case False
  then show ?thesis
    by (cases "names = []") (simp_all add: stageDeletes_Nil deleteRefs_closed)
qed

lemma processEntry_outcomes:
  assumes "forEach c = Some f" and "processEntry c old new = (r, c')"
  shows "(\<exists>e. f (calls_of (events c) @ [(old, new, table c old \<noteq> None)]) = Some e
              \<and> r = Some e \<and> c' = called c old new)
       \<or> (f (calls_of (events c) @ [(old, new, table c old \<noteq> None)]) = None
              \<and> r = None \<and> c' = stageDeletes (called c old new) (refs_of c old))
       \<or> (\<exists>e. f (calls_of (events c) @ [(old, new, table c old \<noteq> None)]) = None
              \<and> r = Some e \<and> c' = called c old new)"
proof (cases "f (calls_of (events c) @ [(old, new, table c old \<noteq> None)])")
  case (Some e)
  then show ?thesis
    using assms by (auto simp: processEntry_def callForEach_def called_def calls_of_append)
next
  case None
  have pe: "processEntry c old new = deleteRefs (called c old new) (refs_of c old)"
    using assms(1) None
    by (simp add: processEntry_def callForEach_def called_def calls_of_append refs_of_def
        split: option.splits)
  show ?thesis
    using deleteRefs_outcome[of "called c old new" "refs_of c old"] None assms(2)
    unfolding pe by auto
qed

lemma processEntry_no_callback:
  assumes "forEach c = None"
  shows "processEntry c old new = deleteRefs c (refs_of c old)"
  using assms by (simp add: processEntry_def callForEach_def refs_of_def split: option.splits)




declare applyLines.simps(2) [simp del]

lemma called_simps:
  "table (called c old new) = table c"
  "forEach (called c old new) = forEach c"
  "updater (called c old new) = updater c"
  "events (called c old new) = events c @ [ForEachCalled old new (table c old \<noteq> None)]"
  by (simp_all add: called_def)

lemma stageDeletes_simps:
  "table (stageDeletes c names) = table c"
  "forEach (stageDeletes c names) = forEach c"
  "events (stageDeletes c names) = events c @ map DeleteStaged names"
  "staged (updater (stageDeletes c names)) = staged (updater c) @ map Delete names"
  "state (updater (stageDeletes c names)) = state (updater c)"
  by (simp_all add: stageDeletes_def)

lemma entry_events_cong: "table c' = table c \<Longrightarrow> entry_events c' = entry_events c"
  by (simp add: entry_events_def refs_of_def fun_eq_iff)

lemma expected_events_cong: "table c' = table c \<Longrightarrow> expected_events c' = expected_events c"
  using entry_events_cong[of c' c] by (intro ext) (simp add: expected_events_def)

lemma expected_events_Cons:
  "expected_events c (line # rest) =
     (if line = filterRepoCommitMapHeader then expected_events c rest
      else if \<not> record_well_formed line then []
      else if take 40 line = drop 41 line then expected_events c rest
      else entry_events c (take 40 line, drop 41 line) @ expected_events c rest)"
  by (simp add: expected_events_def)

lemma applyLines_trace:
  assumes "forEach c = Some f" and "applyLines c i lines = (r, c')"
  shows "table c' = table c \<and> forEach c' = forEach c \<and>
         (\<exists>evs. events c' = events c @ evs \<and> prefix evs (expected_events c lines) \<and>
                (r = None \<longrightarrow> evs = expected_events c lines))"
  using assms
proof (induction lines arbitrary: c i)
  case Nil
  then show ?case by (simp add: expected_events_def)
next
  case (Cons line rest)
  consider (header) "line = filterRepoCommitMapHeader"
    | (malformed) "line \<noteq> filterRepoCommitMapHeader" "\<not> record_well_formed line"
    | (noop) "line \<noteq> filterRepoCommitMapHeader" "record_well_formed line"
        "take 40 line = drop 41 line"
    | (entry) "line \<noteq> filterRepoCommitMapHeader" "record_well_formed line"
        "take 40 line \<noteq> drop 41 line"
    by blast
  then show ?case
  proof cases
    case header
    then have "applyLines c (i + 1) rest = (r, c')"
      using Cons.prems(2) by (simp add: applyLines_Cons)
    from Cons.IH[OF Cons.prems(1) this] show ?thesis
      using header by (simp add: expected_events_Cons)
  next
    case malformed
    then have "r = Some (ErrInvalidObjectMap i)" "c' = c"
      using Cons.prems(2) by (simp_all add: applyLines_Cons)
    then show ?thesis by simp
  next
    case noop
    then have "applyLines c (i + 1) rest = (r, c')"
      using Cons.prems(2) by (simp add: applyLines_Cons)
    from Cons.IH[OF Cons.prems(1) this] show ?thesis
      using noop by (simp add: expected_events_Cons)
  next
    case entry
    let ?old = "take 40 line" and ?new = "drop 41 line"
    obtain r1 c1 where pe: "processEntry c ?old ?new = (r1, c1)" by (cases "processEntry c ?old ?new")
    have ex: "expected_events c (line # rest) = entry_events c (?old, ?new) @ expected_events c rest"
      using entry by (simp add: expected_events_Cons)
    have ee: "entry_events c (?old, ?new) =
        ForEachCalled ?old ?new (table c ?old \<noteq> None) # map DeleteStaged (refs_of c ?old)"
      by (simp add: entry_events_def)
    from processEntry_outcomes[OF Cons.prems(1) pe]
    consider (stop) e where "r1 = Some e" "c1 = called c ?old ?new"
      | (go) "r1 = None" "c1 = stageDeletes (called c ?old ?new) (refs_of c ?old)"
      by blast
    then show ?thesis
    proof cases
      case stop
      then have "r = Some e" "c' = called c ?old ?new"
        using Cons.prems(2) entry pe by (simp_all add: applyLines_Cons)
      then have "table c' = table c" "forEach c' = forEach c"
        "events c' = events c @ [ForEachCalled ?old ?new (table c ?old \<noteq> None)]"
        "prefix [ForEachCalled ?old ?new (table c ?old \<noteq> None)] (expected_events c (line # rest))"
        "r \<noteq> None"
        by (simp_all add: called_simps ex ee)
      then show ?thesis
        by (intro conjI exI[of _ "[ForEachCalled ?old ?new (table c ?old \<noteq> None)]"]) auto
    next
      case go
      then have rec: "applyLines c1 (i + 1) rest = (r, c')"
        using Cons.prems(2) entry pe by (simp add: applyLines_Cons)
      have t1: "table c1 = table c" and f1: "forEach c1 = Some f"
        using go Cons.prems(1) by (simp_all add: stageDeletes_simps called_simps)
      have e1: "events c1 = events c @ entry_events c (?old, ?new)"
        using go by (simp add: stageDeletes_simps called_simps ee)
      from Cons.IH[OF f1 rec] obtain evs where
        evs: "events c' = events c1 @ evs" "prefix evs (expected_events c1 rest)"
          "r = None \<longrightarrow> evs = expected_events c1 rest"
        and fr: "table c' = table c1" "forEach c' = forEach c1"
        by blast
      have a: "events c' = events c @ (entry_events c (?old, ?new) @ evs)"
        using evs(1) e1 by simp
      have b: "prefix (entry_events c (?old, ?new) @ evs) (expected_events c (line # rest))"
        using evs(2) by (simp add: ex expected_events_cong[OF t1])
      have d: "r = None \<longrightarrow> entry_events c (?old, ?new) @ evs = expected_events c (line # rest)"
        using evs(3) by (simp add: ex expected_events_cong[OF t1])
      have "table c' = table c" "forEach c' = forEach c"
        using fr t1 f1 Cons.prems(1) by simp_all
      then show ?thesis using a b d
        by (intro conjI exI[of _ "entry_events c (?old, ?new) @ evs"]) simp_all
    qed
  qed
qed




lemma applyLines_calls_grow:
  assumes "forEach c = Some f" and "applyLines c i lines = (r, c')"
  shows "\<exists>cs. calls_of (events c') = calls_of (events c) @ cs"
  using applyLines_trace[OF assms] by (auto simp: calls_of_append)

lemma applyLines_callback_error:
  assumes "forEach c = Some f" and "applyLines c i lines = (r, c')"
    and "length (calls_of (events c)) < n" and "n \<le> length (calls_of (events c'))"
    and "f (take n (calls_of (events c'))) = Some e"
  shows "r = Some e \<and> n = length (calls_of (events c')) \<and> events c' \<noteq> [] \<and>
         (\<exists>old new p. last (events c') = ForEachCalled old new p)"
  using assms
proof (induction lines arbitrary: c i)
  case Nil
  then show ?case by simp
next
  case (Cons line rest)
  consider (skip) "line = filterRepoCommitMapHeader \<or>
        (record_well_formed line \<and> take 40 line = drop 41 line)"
    | (malformed) "line \<noteq> filterRepoCommitMapHeader" "\<not> record_well_formed line"
    | (entry) "line \<noteq> filterRepoCommitMapHeader" "record_well_formed line"
        "take 40 line \<noteq> drop 41 line"
    by blast
  then show ?case
  proof cases
    case skip
    then have "applyLines c (i + 1) rest = (r, c')"
      using Cons.prems(2) by (auto simp: applyLines_Cons split: if_splits)
    from Cons.IH[OF Cons.prems(1) this Cons.prems(3,4,5)] show ?thesis .
  next
    case malformed
    then have "c' = c" using Cons.prems(2) by (simp add: applyLines_Cons)
    then show ?thesis using Cons.prems(3,4) by simp
  next
    case entry
    let ?old = "take 40 line" and ?new = "drop 41 line"
    let ?call = "(?old, ?new, table c ?old \<noteq> None)"
    let ?cs = "calls_of (events c) @ [?call]"
    obtain r1 c1 where pe: "processEntry c ?old ?new = (r1, c1)" by (cases "processEntry c ?old ?new")
    have called_calls: "calls_of (events (called c ?old ?new)) = ?cs"
      by (simp add: called_simps calls_of_append)
    from processEntry_outcomes[OF Cons.prems(1) pe]
    consider (cb) e1 where "f ?cs = Some e1" "r1 = Some e1" "c1 = called c ?old ?new"
      | (go) "f ?cs = None" "r1 = None" "c1 = stageDeletes (called c ?old ?new) (refs_of c ?old)"
      | (st) e1 where "f ?cs = None" "r1 = Some e1" "c1 = called c ?old ?new"
      by (elim disjE exE conjE) blast+
    then show ?thesis
    proof cases
      case cb
      then have rc: "r = Some e1" "c' = called c ?old ?new"
        using Cons.prems(2) entry pe by (simp_all add: applyLines_Cons)
      have n: "n = length ?cs" using Cons.prems(3,4) rc(2) called_calls by simp
      then have "take n (calls_of (events c')) = ?cs" using rc(2) called_calls by simp
      then have "e = e1" using Cons.prems(5) cb(1) by simp
      then show ?thesis using rc n called_calls by (simp add: called_simps)
    next
      case st
      then have rc: "r = Some e1" "c' = called c ?old ?new"
        using Cons.prems(2) entry pe by (simp_all add: applyLines_Cons)
      have n: "n = length ?cs" using Cons.prems(3,4) rc(2) called_calls by simp
      then have "take n (calls_of (events c')) = ?cs" using rc(2) called_calls by simp
      then show ?thesis using Cons.prems(5) st(1) by simp
    next
      case go
      then have rec: "applyLines c1 (i + 1) rest = (r, c')"
        using Cons.prems(2) entry pe by (simp add: applyLines_Cons)
      have f1: "forEach c1 = Some f"
        using go Cons.prems(1) by (simp add: stageDeletes_simps called_simps)
      have c1_calls: "calls_of (events c1) = ?cs"
        using go by (simp add: stageDeletes_simps called_simps calls_of_append calls_of_deletes)
      obtain more where more: "calls_of (events c') = ?cs @ more"
        using applyLines_calls_grow[OF f1 rec] c1_calls by auto
      show ?thesis
      proof (cases "n = length ?cs")
        case True
        then have "take n (calls_of (events c')) = ?cs" using more by simp
        then show ?thesis using Cons.prems(5) go(1) by simp
      next
        case False
        then have "length (calls_of (events c1)) < n" using Cons.prems(3) c1_calls by simp
        from Cons.IH[OF f1 rec this Cons.prems(4,5)] show ?thesis .
      qed
    qed
  qed
qed






lemma applyLines_malformed_fails:
  "\<exists>l \<in> set lines. l \<noteq> filterRepoCommitMapHeader \<and> \<not> record_well_formed l \<Longrightarrow>
     fst (applyLines c i lines) \<noteq> None"
proof (induction lines arbitrary: c i)
  case Nil
  then show ?case by simp
next
  case (Cons line rest)
  show ?case
  proof (cases "line \<noteq> filterRepoCommitMapHeader \<and> \<not> record_well_formed line")
    case True
    then show ?thesis by (simp add: applyLines_Cons)
  next
    case False
    then have "\<exists>l \<in> set rest. l \<noteq> filterRepoCommitMapHeader \<and> \<not> record_well_formed l"
      using Cons.prems by auto
    then have "\<And>c i. fst (applyLines c i rest) \<noteq> None" using Cons.IH by blast
    then show ?thesis
      by (simp add: applyLines_Cons split: prod.splits option.splits)
  qed
qed

lemma applyLines_without_headers:
  "snd (applyLines c i lines) = snd (applyLines c j (filter (\<lambda>l. \<not> is_header l) lines)) \<and>
   map_option forget_line (fst (applyLines c i lines)) =
     map_option forget_line (fst (applyLines c j (filter (\<lambda>l. \<not> is_header l) lines)))"
proof (induction lines arbitrary: c i j)
  case Nil
  then show ?case by simp
next
  case (Cons line rest)
  show ?case
  proof (cases "line = filterRepoCommitMapHeader")
    case True
    then show ?thesis using Cons.IH[of c "i + 1" j] by (simp add: applyLines_Cons is_header_def)
  next
    case False
    then have flt: "filter (\<lambda>l. \<not> is_header l) (line # rest) = line # filter (\<lambda>l. \<not> is_header l) rest"
      by (simp add: is_header_def)
    show ?thesis
      unfolding flt applyLines_Cons[of c i line] applyLines_Cons[of c j line]
      using Cons.IH[of _ "i + 1" "j + 1"] False
      by (simp split: prod.splits option.splits)
  qed
qed

lemma ApplyObjectMap_loop_error:
  "applyLines c 0 (fst (scan rd)) = (Some e, c') \<Longrightarrow> ApplyObjectMap c rd repo = (Some e, c', repo)"
  by (simp add: ApplyObjectMap_def)

lemma ApplyObjectMap_loop_ok:
  "applyLines c 0 (fst (scan rd)) = (None, c') \<Longrightarrow>
     ApplyObjectMap c rd repo =
       (fst (Commit (updater c') repo), c'\<lparr>updater := fst (snd (Commit (updater c') repo))\<rparr>,
        snd (snd (Commit (updater c') repo)))"
  by (simp add: ApplyObjectMap_def split: prod.splits)

lemma invalid_record_reported:
  assumes tokens: "fst (scan rd) = pre @ bad # post"
    and bad: "bad \<noteq> filterRepoCommitMapHeader" "\<not> record_well_formed bad"
  shows "(\<exists>e c'. ApplyObjectMap c rd repo = (Some e, c', repo)) \<and>
         (\<forall>c1. applyLines c 0 pre = (None, c1) \<longrightarrow>
            ApplyObjectMap c rd repo = (Some (ErrInvalidObjectMap (int (length pre))), c1, repo))"
proof
  have "\<exists>l \<in> set (fst (scan rd)). l \<noteq> filterRepoCommitMapHeader \<and> \<not> record_well_formed l"
    using tokens bad by auto
  from applyLines_malformed_fails[OF this, of c 0]
  obtain e c' where "applyLines c 0 (fst (scan rd)) = (Some e, c')"
    by (cases "applyLines c 0 (fst (scan rd))") auto
  then show "\<exists>e c'. ApplyObjectMap c rd repo = (Some e, c', repo)"
    using ApplyObjectMap_loop_error by blast
next
  show "\<forall>c1. applyLines c 0 pre = (None, c1) \<longrightarrow>
            ApplyObjectMap c rd repo = (Some (ErrInvalidObjectMap (int (length pre))), c1, repo)"
  proof (intro allI impI)
    fix c1 assume pre: "applyLines c 0 pre = (None, c1)"
    have "applyLines c 0 (pre @ bad # post) = (Some (ErrInvalidObjectMap (int (length pre))), c1)"
      using pre bad by (simp add: applyLines_append applyLines_Cons)
    then show "ApplyObjectMap c rd repo = (Some (ErrInvalidObjectMap (int (length pre))), c1, repo)"
      using tokens by (simp add: ApplyObjectMap_loop_error)
  qed
qed

section \<open>The scanner\<close>

declare scanTokens.simps [simp del]

lemma scanTokens_Nil: "scanTokens [] err = ([], err)"
  by (simp add: scanTokens.simps)

lemma scanTokens_line:
  assumes "newline \<notin> set line" and "length line < MaxScanTokenSize"
  shows "scanTokens (line @ newline # rest) err =
           (dropCR line # fst (scanTokens rest err), snd (scanTokens rest err))"
proof -
  have "cut newline (line @ newline # rest) = Some (line, rest)"
    using assms(1) by (rule cut_append)
  then show ?thesis
    using assms(2) by (subst scanTokens.simps) (simp split: prod.splits)
qed

lemma scanTokens_too_long:
  assumes "newline \<notin> set data" and "MaxScanTokenSize \<le> length data"
  shows "scanTokens data err = ([], Some ErrTooLong)"
proof -
  have "cut newline data = None" using assms(1) by (simp add: cut_None_iff)
  moreover have "data \<noteq> []" using assms(2) by (auto simp: MaxScanTokenSize_def)
  ultimately show ?thesis using assms(2) by (subst scanTokens.simps) simp
qed

lemma scanTokens_lines:
  assumes "\<forall>l \<in> set ls. newline \<notin> set l \<and> length l < MaxScanTokenSize"
  shows "scanTokens (text_of_lines ls @ rest) err =
           (map dropCR ls @ fst (scanTokens rest err), snd (scanTokens rest err))"
  using assms
proof (induction ls)
  case Nil
  then show ?case by (simp add: text_of_lines_def)
next
  case (Cons l ls)
  have "text_of_lines (l # ls) @ rest = l @ newline # (text_of_lines ls @ rest)"
    by (simp add: text_of_lines_def)
  then show ?case using Cons by (simp add: scanTokens_line)
qed

lemma scan_text_of_lines:
  assumes "\<forall>l \<in> set ls. newline \<notin> set l \<and> length l < MaxScanTokenSize"
  shows "scan \<lparr>rd_data = text_of_lines ls, rd_err = err\<rparr> = (map dropCR ls, err)"
  using scanTokens_lines[OF assms, of "[]" err] by (simp add: scan_def scanTokens_Nil)

section \<open>The example inputs\<close>

lemmas example_oids = oidA_def oidB_def oidC_def oidD_def oidE_def

lemma example_oid_facts:
  "length oidA = 40" "length oidB = 40" "length oidC = 40" "length oidD = 40" "length oidE = 40"
  "space \<notin> set oidA" "space \<notin> set oidB" "space \<notin> set oidC" "space \<notin> set oidD"
  "space \<notin> set oidE"
  "newline \<notin> set oidA" "newline \<notin> set oidB" "newline \<notin> set oidC" "newline \<notin> set oidD"
  "newline \<notin> set oidE"
  "last oidA \<noteq> carriage_return" "last oidB \<noteq> carriage_return" "last oidC \<noteq> carriage_return"
  "last oidD \<noteq> carriage_return" "last oidE \<noteq> carriage_return"
  "oidA \<noteq> oidB" "oidD \<noteq> oidE" "oidD \<noteq> oidA"
  by (simp_all add: example_oids space_def newline_def carriage_return_def)

lemma header_facts:
  "length filterRepoCommitMapHeader = 44" "newline \<notin> set filterRepoCommitMapHeader"
  "dropCR filterRepoCommitMapHeader = filterRepoCommitMapHeader"
  "\<not> record_well_formed filterRepoCommitMapHeader"
  by (simp_all add: filterRepoCommitMapHeader_def newline_def dropCR_def carriage_return_def
      record_well_formed_def)

lemma record_line_facts:
  assumes "length old = 40" and "length new = 40" and "space \<notin> set old"
  shows "record_well_formed (record_line old new)"
    and "take 40 (record_line old new) = old"
    and "drop 41 (record_line old new) = new"
    and "record_line old new \<noteq> filterRepoCommitMapHeader"
    and "length (record_line old new) = 81"
proof -
  show "record_well_formed (record_line old new)"
    using assms by (simp add: record_well_formed_def record_line_def nth_append)
  show "take 40 (record_line old new) = old" using assms by (simp add: record_line_def)
  show "drop 41 (record_line old new) = new" using assms by (simp add: record_line_def)
  show l: "length (record_line old new) = 81" using assms by (simp add: record_line_def)
  show "record_line old new \<noteq> filterRepoCommitMapHeader"
    using l header_facts(1) by auto
qed

lemma record_line_plain:
  assumes "newline \<notin> set old" and "newline \<notin> set new" and "new \<noteq> []"
    and "last new \<noteq> carriage_return"
  shows "newline \<notin> set (record_line old new)"
    and "dropCR (record_line old new) = record_line old new"
  using assms by (simp_all add: record_line_def newline_def space_def dropCR_def)

lemma oid_nonempty: "length s = 40 \<Longrightarrow> s \<noteq> []"
  by auto

lemma example_lines_plain:
  "\<forall>l \<in> set example_lines. newline \<notin> set l \<and> length l < MaxScanTokenSize"
  "map dropCR example_lines = example_lines"
  by (simp_all add: example_lines_def example_oid_facts header_facts record_line_facts
      record_line_plain oid_nonempty MaxScanTokenSize_def)

lemma scan_example_map: "scan example_map = (example_lines, None)"
  unfolding example_map_def using scan_text_of_lines[OF example_lines_plain(1)]
  by (simp add: example_lines_plain(2))

lemma example_processed: "processed example_lines = [(oidA, oidB), (oidD, oidE)]"
  by (simp add: example_lines_def example_oid_facts record_line_facts)

lemma processEntry_plain:
  assumes "forEach c = None" and "state (updater c) = Open"
  shows "processEntry c old new = (None, stageDeletes c (refs_of c old))"
  using assms by (simp add: processEntry_no_callback deleteRefs_Open)

lemma processEntry_callback_ok:
  assumes "forEach c = Some f" and "state (updater c) = Open"
    and "f (calls_of (events c) @ [(old, new, table c old \<noteq> None)]) = None"
  shows "processEntry c old new = (None, stageDeletes (called c old new) (refs_of c old))"
proof -
  have "processEntry c old new = deleteRefs (called c old new) (refs_of c old)"
    using assms(1,3)
    by (simp add: processEntry_def callForEach_def called_def calls_of_append refs_of_def
        split: option.splits)
  moreover have "state (updater (called c old new)) = Open"
    using assms(2) by (simp add: called_simps)
  ultimately show ?thesis by (simp add: deleteRefs_Open)
qed

lemma processEntry_callback_fails:
  assumes "forEach c = Some f"
    and "f (calls_of (events c) @ [(old, new, table c old \<noteq> None)]) = Some e"
  shows "processEntry c old new = (Some e, called c old new)"
  using assms
  by (simp add: processEntry_def callForEach_def calls_of_append called_def)

lemma refs_of_frame:
  "refs_of (stageDeletes c names) = refs_of c" "refs_of (called c old new) = refs_of c"
  by (simp_all add: refs_of_def stageDeletes_simps called_simps fun_eq_iff)

lemma updater_frame:
  "state (updater (called c old new)) = state (updater c)"
  by (simp add: called_simps)

lemma example_cleaner_facts:
  "forEach example_cleaner = None" "state (updater example_cleaner) = Open"
  "events example_cleaner = []" "staged (updater example_cleaner) = []"
  "refs_of example_cleaner oidA = [''refs/keep-around/1'']"
  "refs_of example_cleaner oidD = []"
  "table example_cleaner oidA \<noteq> None" "table example_cleaner oidD = None"
  using example_oid_facts(23)
  by (simp_all add: example_cleaner_def New_def refs_of_def)

lemma example_loop:
  "applyLines example_cleaner 0 example_lines =
     (None, stageDeletes example_cleaner [''refs/keep-around/1''])"
  by (simp add: example_lines_def applyLines_Cons example_oid_facts record_line_facts
      processEntry_plain example_cleaner_facts stageDeletes_simps refs_of_frame stageDeletes_Nil)

lemma scanTokens_last_line:
  assumes "data \<noteq> []" and "newline \<notin> set data" and "length data < MaxScanTokenSize"
  shows "scanTokens data err = ([dropCR data], err)"
proof -
  have "cut newline data = None" using assms(2) by (simp add: cut_None_iff)
  then show ?thesis using assms(1,3) by (subst scanTokens.simps) simp
qed

lemma bad_line_facts:
  "bad_line \<noteq> []" "newline \<notin> set bad_line" "length bad_line < MaxScanTokenSize"
  "dropCR bad_line = bad_line" "malformed bad_line"
  by (simp_all add: bad_line_def newline_def MaxScanTokenSize_def dropCR_def carriage_return_def
      malformed_def is_header_def filterRepoCommitMapHeader_def record_well_formed_def)

lemma scan_garbage_map: "scan garbage_map = ([bad_line], None)"
  using scanTokens_last_line[OF bad_line_facts(1,2,3), of None]
  by (simp add: scan_def garbage_map_def bad_line_facts(4))

lemma scan_bad_map: "scan bad_map = (example_lines @ [bad_line], None)"
proof -
  have "\<forall>l \<in> set (example_lines @ [bad_line]). newline \<notin> set l \<and> length l < MaxScanTokenSize"
    using example_lines_plain(1) bad_line_facts by simp
  from scan_text_of_lines[OF this, of None] show ?thesis
    by (simp add: bad_map_def example_lines_plain(2) bad_line_facts(4))
qed

lemma scan_headerless_bad_map:
  "scan headerless_bad_map =
     ([record_line oidA oidB, record_line oidC oidC, record_line oidD oidE, bad_line], None)"
proof -
  let ?ls = "[record_line oidA oidB, record_line oidC oidC, record_line oidD oidE, bad_line]"
  have "\<forall>l \<in> set ?ls. newline \<notin> set l \<and> length l < MaxScanTokenSize"
    using example_lines_plain(1) bad_line_facts by (simp add: example_lines_def)
  moreover have "map dropCR ?ls = ?ls"
    using example_lines_plain(2) bad_line_facts(4) by (simp add: example_lines_def)
  ultimately show ?thesis
    using scan_text_of_lines[of ?ls None] by (simp add: headerless_bad_map_def)
qed

lemma malformed_iff: "malformed l \<longleftrightarrow> l \<noteq> filterRepoCommitMapHeader \<and> \<not> record_well_formed l"
  by (simp add: malformed_def is_header_def)

section \<open>Claims about the Internal Reference Cleaner\<close>

text \<open>
  Claim C4, as amended. The claim: for every object map containing a malformed record,
  \<open>ApplyObjectMap\<close> fails with an "invalid object map" error that reports the 1-based
  line number of the offending record. The code counts lines from zero. What holds: if
  the lines the scanner yields contain a malformed record (a line that is neither the
  header nor 40 bytes without a space, a space and 40 bytes), \<open>ApplyObjectMap\<close> returns
  an error and leaves the repository as it was; and if the lines before the record are
  processed without error, the error is "object map invalid at line i", where \<open>i\<close> is
  the number of lines before the record, header lines included.
\<close>

theorem malformed_record_reported_from_zero:
  assumes "fst (scan rd) = pre @ bad # post" and "malformed bad"
  shows "(\<exists>e c'. ApplyObjectMap c rd repo = (Some e, c', repo)) \<and>
         (\<forall>c1. applyLines c 0 pre = (None, c1) \<longrightarrow>
            ApplyObjectMap c rd repo = (Some (ErrInvalidObjectMap (int (length pre))), c1, repo))"
  using invalid_record_reported[of rd pre bad post c repo] assms
  by (simp add: malformed_iff)

theorem malformed_record_reported_from_zero_witness:
  "ApplyObjectMap example_cleaner bad_map example_repository =
     (Some (ErrInvalidObjectMap 4), stageDeletes example_cleaner [''refs/keep-around/1''],
      example_repository)"
proof -
  have "fst (scan bad_map) = example_lines @ bad_line # []" by (simp add: scan_bad_map)
  from malformed_record_reported_from_zero[OF this bad_line_facts(5),
      of example_cleaner example_repository]
  show ?thesis using example_loop by (simp add: example_lines_def)
qed

theorem first_line_reported_as_line_zero:
  "fst (scan garbage_map) = [bad_line] \<and> malformed bad_line \<and>
   fst (ApplyObjectMap example_cleaner garbage_map example_repository)
     = Some (ErrInvalidObjectMap 0) \<and>
   fst (ApplyObjectMap example_cleaner garbage_map example_repository)
     \<noteq> Some (ErrInvalidObjectMap 1)"
  using bad_line_facts(5)
  by (simp add: ApplyObjectMap_def scan_garbage_map applyLines_Cons malformed_iff)

text \<open>
  Claim C10. \<open>ApplyObjectMap\<close> skips every line equal to the filter-repo commit-map
  header, wherever it stands and however often it occurs: an object map and the same map
  without its header lines leave the same cleaner and the same repository, and fail or
  succeed alike, with the same error up to its line number. The skipped header lines
  advance the line counter: the number reported for a malformed record is the number of
  the records before it plus the number of the header lines before it.
\<close>

theorem header_lines_skipped_and_counted:
  "(fst (scan rd') = filter (\<lambda>l. \<not> is_header l) (fst (scan rd)) \<longrightarrow>
      snd (ApplyObjectMap c rd' repo) = snd (ApplyObjectMap c rd repo) \<and>
      map_option forget_line (fst (ApplyObjectMap c rd' repo)) =
        map_option forget_line (fst (ApplyObjectMap c rd repo))) \<and>
   (fst (scan rd) = pre @ bad # post \<and> malformed bad \<and>
    applyLines c 0 (filter (\<lambda>l. \<not> is_header l) pre) = (None, c1) \<longrightarrow>
      ApplyObjectMap c rd repo =
        (Some (ErrInvalidObjectMap
           (int (length (filter (\<lambda>l. \<not> is_header l) pre)) + int (length (filter is_header pre)))),
         c1, repo))"
proof (intro conjI impI)
  assume t: "fst (scan rd') = filter (\<lambda>l. \<not> is_header l) (fst (scan rd))"
  obtain r1 k1 where a1: "applyLines c 0 (fst (scan rd)) = (r1, k1)"
    by (cases "applyLines c 0 (fst (scan rd))")
  obtain r2 k2 where a2: "applyLines c 0 (fst (scan rd')) = (r2, k2)"
    by (cases "applyLines c 0 (fst (scan rd'))")
  from applyLines_without_headers[of c 0 "fst (scan rd)" 0] t a1 a2
  have k: "k2 = k1" and r: "map_option forget_line r2 = map_option forget_line r1"
    by simp_all
  have s: "(r1 = None) = (r2 = None)" using r by (cases r1; cases r2) simp_all
  show "snd (ApplyObjectMap c rd' repo) = snd (ApplyObjectMap c rd repo)"
    using a1 a2 k s by (cases r1; cases r2) (simp_all add: ApplyObjectMap_def split: prod.splits)
  show "map_option forget_line (fst (ApplyObjectMap c rd' repo)) =
        map_option forget_line (fst (ApplyObjectMap c rd repo))"
    using a1 a2 k r s by (cases r1; cases r2) (simp_all add: ApplyObjectMap_def split: prod.splits)
next
  assume h: "fst (scan rd) = pre @ bad # post \<and> malformed bad \<and>
    applyLines c 0 (filter (\<lambda>l. \<not> is_header l) pre) = (None, c1)"
  from applyLines_without_headers[of c 0 pre 0] h
  have "snd (applyLines c 0 pre) = c1" "fst (applyLines c 0 pre) = None" by simp_all
  then have p: "applyLines c 0 pre = (None, c1)" by (cases "applyLines c 0 pre") simp
  have n: "int (length pre) =
      int (length (filter (\<lambda>l. \<not> is_header l) pre)) + int (length (filter is_header pre))"
    using sum_length_filter_compl[of is_header pre] by simp
  from invalid_record_reported[of rd pre bad post c repo] h p
  show "ApplyObjectMap c rd repo =
        (Some (ErrInvalidObjectMap
           (int (length (filter (\<lambda>l. \<not> is_header l) pre)) + int (length (filter is_header pre)))),
         c1, repo)"
    unfolding n[symmetric] by (simp add: malformed_iff)
qed

theorem header_lines_skipped_and_counted_witness:
  "snd (ApplyObjectMap example_cleaner headerless_bad_map example_repository) =
     snd (ApplyObjectMap example_cleaner bad_map example_repository) \<and>
   fst (ApplyObjectMap example_cleaner headerless_bad_map example_repository) =
     Some (ErrInvalidObjectMap 3) \<and>
   ApplyObjectMap example_cleaner bad_map example_repository =
     (Some (ErrInvalidObjectMap (3 + 1)),
      stageDeletes example_cleaner [''refs/keep-around/1''], example_repository)"
proof -
  let ?nh = "\<lambda>l. \<not> is_header l"
  have f: "filter ?nh example_lines =
      [record_line oidA oidB, record_line oidC oidC, record_line oidD oidE]"
    "filter is_header example_lines = [filterRepoCommitMapHeader]"
    by (simp_all add: example_lines_def is_header_def example_oid_facts record_line_facts)
  have nb: "\<not> is_header bad_line" using bad_line_facts(5) by (simp add: malformed_def)
  have t: "fst (scan headerless_bad_map) = filter ?nh (fst (scan bad_map))"
    using nb by (simp add: scan_headerless_bad_map scan_bad_map f)
  have l: "applyLines example_cleaner 0 (filter ?nh example_lines) =
      (None, stageDeletes example_cleaner [''refs/keep-around/1''])"
    unfolding f
    by (simp add: applyLines_Cons example_oid_facts record_line_facts processEntry_plain
        example_cleaner_facts stageDeletes_simps refs_of_frame stageDeletes_Nil)
  have b: "fst (scan bad_map) = example_lines @ bad_line # []" by (simp add: scan_bad_map)
  note inst = header_lines_skipped_and_counted[of headerless_bad_map bad_map example_cleaner
      example_repository example_lines bad_line "[]"
      "stageDeletes example_cleaner [''refs/keep-around/1'']"]
  have full: "ApplyObjectMap example_cleaner bad_map example_repository =
     (Some (ErrInvalidObjectMap (3 + 1)),
      stageDeletes example_cleaner [''refs/keep-around/1''], example_repository)"
    using inst b l bad_line_facts(5) by (simp add: f)
  have same: "snd (ApplyObjectMap example_cleaner headerless_bad_map example_repository) =
     snd (ApplyObjectMap example_cleaner bad_map example_repository)"
    using inst t by simp
  have "fst (ApplyObjectMap example_cleaner headerless_bad_map example_repository) =
     Some (ErrInvalidObjectMap 3)"
    using l bad_line_facts(5) unfolding f
    by (simp add: ApplyObjectMap_def scan_headerless_bad_map applyLines_append[of _ _ "[_, _, _]" "[_]", simplified]
        applyLines_Cons[of _ _ bad_line] malformed_iff)
  then show ?thesis using full same by simp
qed

text \<open>
  Claim C5. With a callback supplied, the actions of \<open>ApplyObjectMap\<close> follow the
  processed lines one by one, a processed line being one handed to \<open>processEntry\<close>
  (the loop skips a header line and a record whose two OIDs are equal before that):
  for each processed line the callback is called once, also
  when the old OID has no reference in the lookup table, and the deletions of that line
  are staged only after the call. At any moment of a run the actions so far are a prefix
  of that sequence, and when the loop reaches the end of the map they are the whole
  sequence. If a call of the callback returns an error, that call is the last action of
  the run, the error is what \<open>ApplyObjectMap\<close> returns, and the repository is left as it
  was: nothing staged during the run is committed.
\<close>

theorem forEach_called_once_per_processed_line:
  assumes "forEach c = Some f" and "ApplyObjectMap c rd repo = (r, c', repo')"
  shows "(\<exists>evs. events c' = events c @ evs \<and> prefix evs (expected_events c (fst (scan rd)))) \<and>
         (fst (applyLines c 0 (fst (scan rd))) = None \<longrightarrow>
            events c' = events c @ expected_events c (fst (scan rd))) \<and>
         (\<forall>n e. length (calls_of (events c)) < n \<and> n \<le> length (calls_of (events c')) \<and>
                f (take n (calls_of (events c'))) = Some e \<longrightarrow>
                r = Some e \<and> repo' = repo \<and> n = length (calls_of (events c')) \<and>
                events c' \<noteq> [] \<and> (\<exists>old new p. last (events c') = ForEachCalled old new p))"
proof -
  obtain r1 c1 where loop: "applyLines c 0 (fst (scan rd)) = (r1, c1)"
    by (cases "applyLines c 0 (fst (scan rd))")
  have ev: "events c' = events c1"
    using loop assms(2) by (cases r1) (auto simp: ApplyObjectMap_def split: prod.splits)
  have err: "r1 \<noteq> None \<Longrightarrow> r = r1 \<and> repo' = repo"
    using loop assms(2) by (cases r1) (auto simp: ApplyObjectMap_def)
  from applyLines_trace[OF assms(1) loop] obtain evs where
    evs: "events c1 = events c @ evs" "prefix evs (expected_events c (fst (scan rd)))"
      "r1 = None \<longrightarrow> evs = expected_events c (fst (scan rd))"
    by blast
  have one: "\<exists>evs. events c' = events c @ evs \<and> prefix evs (expected_events c (fst (scan rd)))"
    using evs(1,2) ev by auto
  have two: "fst (applyLines c 0 (fst (scan rd))) = None \<longrightarrow>
            events c' = events c @ expected_events c (fst (scan rd))"
    using evs(1,3) ev loop by simp
  have three: "r = Some e \<and> repo' = repo \<and> n = length (calls_of (events c')) \<and>
                events c' \<noteq> [] \<and> (\<exists>old new p. last (events c') = ForEachCalled old new p)"
    if h: "length (calls_of (events c)) < n \<and> n \<le> length (calls_of (events c')) \<and>
                f (take n (calls_of (events c'))) = Some e" for n e
  proof -
    from h have "length (calls_of (events c)) < n" "n \<le> length (calls_of (events c1))"
      "f (take n (calls_of (events c1))) = Some e" by (simp_all add: ev)
    from applyLines_callback_error[OF assms(1) loop this]
    have a: "r1 = Some e" "n = length (calls_of (events c1))" "events c1 \<noteq> []"
      "\<exists>old new p. last (events c1) = ForEachCalled old new p" by simp_all
    then show ?thesis using err ev by simp
  qed
  show ?thesis using one two three by blast
qed

theorem forEach_called_once_per_processed_line_witness:
  "events (fst (snd (ApplyObjectMap example_cleaner_with_quiet_callback example_map
       example_repository))) =
     [ForEachCalled oidA oidB True, DeleteStaged ''refs/keep-around/1'',
      ForEachCalled oidD oidE False] \<and>
   ApplyObjectMap example_cleaner_with_callback example_map example_repository =
     (Some (ErrOther ''stop''),
      called (stageDeletes (called example_cleaner_with_callback oidA oidB)
                [''refs/keep-around/1'']) oidD oidE,
      example_repository)"
proof -
  let ?ok = "example_cleaner_with_quiet_callback"
  let ?k1 = "stageDeletes (called ?ok oidA oidB) [''refs/keep-around/1'']"
  let ?c = "example_cleaner_with_callback"
  let ?c1 = "stageDeletes (called ?c oidA oidB) [''refs/keep-around/1'']"
  let ?c2 = "called ?c1 oidD oidE"
  have ok_facts: "forEach ?ok = Some never_fails" "state (updater ?ok) = Open" "events ?ok = []"
    "refs_of ?ok oidA = [''refs/keep-around/1'']" "refs_of ?ok oidD = []"
    "table ?ok oidA \<noteq> None" "table ?ok oidD = None"
    using example_cleaner_facts
    by (simp_all add: refs_of_def example_cleaner_with_quiet_callback_def)
  have c_facts: "forEach ?c = Some fails_at_second_call" "state (updater ?c) = Open"
    "events ?c = []" "refs_of ?c oidA = [''refs/keep-around/1'']" "refs_of ?c oidD = []"
    "table ?c oidA \<noteq> None" "table ?c oidD = None"
    using example_cleaner_facts by (simp_all add: refs_of_def example_cleaner_with_callback_def)
  txt \<open>The run with the callback that never fails reaches the end of the map.\<close>
  have q1: "processEntry ?ok oidA oidB = (None, ?k1)"
    using processEntry_callback_ok[of ?ok never_fails oidA oidB] ok_facts
    by (simp add: never_fails_def)
  have k1_facts: "forEach ?k1 = Some never_fails" "state (updater ?k1) = Open"
    using ok_facts by (simp_all add: stageDeletes_simps called_simps)
  obtain k2 where q2: "processEntry ?k1 oidD oidE = (None, k2)"
    using processEntry_callback_ok[of ?k1 never_fails oidD oidE] k1_facts
    by (simp add: never_fails_def)
  have loop_ok: "fst (applyLines ?ok 0 (fst (scan example_map))) = None"
    by (simp add: scan_example_map example_lines_def applyLines_Cons example_oid_facts
        record_line_facts q1 q2)
  obtain r k repo' where run_ok:
    "ApplyObjectMap ?ok example_map example_repository = (r, k, repo')"
    by (cases "ApplyObjectMap ?ok example_map example_repository")
  from forEach_called_once_per_processed_line[OF ok_facts(1) run_ok] loop_ok
  have "events k = events ?ok @ expected_events ?ok (fst (scan example_map))" by blast
  then have first: "events (fst (snd (ApplyObjectMap ?ok example_map example_repository))) =
     [ForEachCalled oidA oidB True, DeleteStaged ''refs/keep-around/1'',
      ForEachCalled oidD oidE False]"
    using run_ok ok_facts
    by (simp add: scan_example_map expected_events_def example_processed entry_events_def)
  txt \<open>The run with the callback that fails at its second call stops there.\<close>
  have p1: "processEntry ?c oidA oidB = (None, ?c1)"
    using processEntry_callback_ok[of ?c fails_at_second_call oidA oidB] c_facts
    by (simp add: fails_at_second_call_def)
  have c1_facts: "forEach ?c1 = Some fails_at_second_call"
    "calls_of (events ?c1) = [(oidA, oidB, True)]" "table ?c1 oidD = None"
    using c_facts
    by (simp_all add: stageDeletes_simps called_simps calls_of_append calls_of_deletes)
  have p2: "processEntry ?c1 oidD oidE = (Some (ErrOther ''stop''), ?c2)"
    using processEntry_callback_fails[of ?c1 fails_at_second_call oidD oidE "ErrOther ''stop''"]
      c1_facts by (simp add: fails_at_second_call_def)
  have loop: "applyLines ?c 0 (fst (scan example_map)) = (Some (ErrOther ''stop''), ?c2)"
    by (simp add: scan_example_map example_lines_def applyLines_Cons example_oid_facts
        record_line_facts p1 p2)
  obtain r2 k2 repo2 where run:
    "ApplyObjectMap ?c example_map example_repository = (r2, k2, repo2)"
    by (cases "ApplyObjectMap ?c example_map example_repository")
  have k2: "k2 = ?c2" using run loop by (simp add: ApplyObjectMap_def)
  have calls: "calls_of (events k2) = [(oidA, oidB, True), (oidD, oidE, False)]"
    unfolding k2 using c1_facts by (simp add: called_simps calls_of_append)
  from forEach_called_once_per_processed_line[OF c_facts(1) run]
  have "length (calls_of (events ?c)) < 2 \<and> 2 \<le> length (calls_of (events k2)) \<and>
        fails_at_second_call (take 2 (calls_of (events k2))) = Some (ErrOther ''stop'') \<longrightarrow>
        r2 = Some (ErrOther ''stop'') \<and> repo2 = example_repository"
    by blast
  then have "r2 = Some (ErrOther ''stop'') \<and> repo2 = example_repository"
    using calls c_facts(3) by (simp add: fails_at_second_call_def)
  then show ?thesis using first run k2 by simp
qed

subsection \<open>Atomicity of a run\<close>

text \<open>
  The part of claim C1 that holds: a run of \<open>ApplyObjectMap\<close> that returns an error leaves every
  reference as it was and applies no batch, whichever line failed and however many
  records came before it; a run that succeeds applies the staged deletions as one batch.
\<close>

lemma failed_run_changes_no_reference:
  assumes "ApplyObjectMap c rd repo = (Some e, c', repo')"
  shows "refs repo' = refs repo \<and> commit_log repo' = commit_log repo"
proof (cases "fst (applyLines c 0 (fst (scan rd)))")
  case (Some e1)
  then have "repo' = repo"
    using assms by (cases "applyLines c 0 (fst (scan rd))") (simp add: ApplyObjectMap_def)
  then show ?thesis by simp
next
  case None
  then obtain c1 where loop: "applyLines c 0 (fst (scan rd)) = (None, c1)"
    by (cases "applyLines c 0 (fst (scan rd))") simp
  obtain r u k where co: "Commit (updater c1) repo = (r, u, k)"
    by (cases "Commit (updater c1) repo")
  have "r = Some e" "k = repo'" using assms loop co by (simp_all add: ApplyObjectMap_def)
  then show ?thesis
    using co by (auto simp: Commit_def split: if_splits option.splits)
qed

lemma successful_run_commits_one_batch:
  assumes "ApplyObjectMap c rd repo = (None, c', repo')"
  shows "commit_log repo' =
           commit_log repo @ (if staged (updater c') = [] then [] else [staged (updater c')])"
proof -
  obtain c1 where loop: "applyLines c 0 (fst (scan rd)) = (None, c1)"
    using assms
    by (cases "applyLines c 0 (fst (scan rd))"; cases "fst (applyLines c 0 (fst (scan rd)))")
       (simp_all add: ApplyObjectMap_def)
  obtain r u k where co: "Commit (updater c1) repo = (r, u, k)"
    by (cases "Commit (updater c1) repo")
  have "r = None" "k = repo'" "c' = c1\<lparr>updater := u\<rparr>"
    using assms loop co by (simp_all add: ApplyObjectMap_def)
  then show ?thesis
    using co by (auto simp: Commit_def split: if_splits option.splits)
qed

text \<open>
  The tokens a scanner yields do not depend on how the stream ended, and \<open>ApplyObjectMap\<close>
  looks at nothing else: it treats a reader that failed like one that reached its end.
\<close>

lemma scanTokens_tokens_without_error:
  "fst (scanTokens data err) = fst (scanTokens data None)"
proof (induction data err rule: scanTokens.induct)
  case (1 data err)
  show ?case
  proof (cases "data = []")
    case True
    then show ?thesis by (simp add: scanTokens_Nil)
  next
    case False
    show ?thesis
    proof (cases "cut newline data")
      case None
      then show ?thesis
        using False by (subst scanTokens.simps, subst (2) scanTokens.simps) simp
    next
      case (Some p)
      obtain line rest where p: "p = (line, rest)" by (cases p)
      show ?thesis
      proof (cases "MaxScanTokenSize \<le> length line")
        case True
        then show ?thesis
          using False Some p by (subst scanTokens.simps, subst (2) scanTokens.simps) simp
      next
        case long: False
        have ih: "fst (scanTokens rest err) = fst (scanTokens rest None)"
          using "1.IH"[OF False Some p[symmetric] long] .
        obtain ts r where a: "scanTokens rest err = (ts, r)" by (cases "scanTokens rest err")
        obtain ts' r' where b: "scanTokens rest None = (ts', r')"
          by (cases "scanTokens rest None")
        have "ts = ts'" using ih a b by simp
        then show ?thesis
          using False Some p long a b
          by (subst scanTokens.simps, subst (2) scanTokens.simps) simp
      qed
    qed
  qed
qed

lemma read_error_is_ignored:
  "ApplyObjectMap c \<lparr>rd_data = data, rd_err = Some e\<rparr> repo =
   ApplyObjectMap c \<lparr>rd_data = data, rd_err = None\<rparr> repo"
  using scanTokens_tokens_without_error[of data "Some e"]
  by (simp add: ApplyObjectMap_def scan_def)

text \<open>
  Claim C1, on the code. The claim holds for the lines the scanner yields, and fails for
  an object map with a line of \<open>MaxScanTokenSize\<close> bytes or more: the scanner stops
  there with \<open>ErrTooLong\<close>, \<open>ApplyObjectMap\<close> does not ask the scanner for its error
  (\<open>buildLookupTable\<close> and \<open>rescueDanglingObjects\<close> do), and it commits the deletions
  staged for the records before that line and reports success. Here the first record
  rewrites the commit \<open>refs/keep-around/1\<close> points to, and the second line is no record.
\<close>

theorem long_line_commits_a_partial_map:
  "scan too_long_map = ([record_line oidA oidB], Some ErrTooLong) \<and>
   \<not> record_well_formed (replicate MaxScanTokenSize (CHR ''f'')) \<and>
   refs example_repository ''refs/keep-around/1'' = Some oidA \<and>
   fst (ApplyObjectMap example_cleaner too_long_map example_repository) = None \<and>
   refs (snd (snd (ApplyObjectMap example_cleaner too_long_map example_repository)))
     ''refs/keep-around/1'' = None"
proof -
  have plain: "\<forall>l \<in> set [record_line oidA oidB]. newline \<notin> set l \<and> length l < MaxScanTokenSize"
    using example_lines_plain(1) by (simp add: example_lines_def)
  have long: "scanTokens (replicate MaxScanTokenSize (CHR ''f'')) None = ([], Some ErrTooLong)"
    by (rule scanTokens_too_long) (simp_all add: newline_def)
  have cr: "dropCR (record_line oidA oidB) = record_line oidA oidB"
    using example_lines_plain(2) by (simp add: example_lines_def)
  have s: "scan too_long_map = ([record_line oidA oidB], Some ErrTooLong)"
    using scanTokens_lines[OF plain, of "replicate MaxScanTokenSize (CHR ''f'')" None]
    by (simp add: scan_def too_long_map_def long cr)
  have loop: "applyLines example_cleaner 0 [record_line oidA oidB] =
      (None, stageDeletes example_cleaner [''refs/keep-around/1''])"
    by (simp add: applyLines_Cons example_oid_facts record_line_facts processEntry_plain
        example_cleaner_facts)
  have st: "staged (updater (stageDeletes example_cleaner [''refs/keep-around/1''])) =
      [Delete ''refs/keep-around/1'']"
    "state (updater (stageDeletes example_cleaner [''refs/keep-around/1''])) = Open"
    "disabledTransactions (updater (stageDeletes example_cleaner [''refs/keep-around/1''])) = False"
    by (simp_all add: stageDeletes_def example_cleaner_def New_def)
  have run: "fst (ApplyObjectMap example_cleaner too_long_map example_repository) = None"
    "refs (snd (snd (ApplyObjectMap example_cleaner too_long_map example_repository)))
       ''refs/keep-around/1'' = None"
    by (simp_all add: ApplyObjectMap_def s loop Commit_def st example_repository_def)
  have "\<not> record_well_formed (replicate MaxScanTokenSize (CHR ''f''))"
    by (simp add: record_well_formed_def MaxScanTokenSize_def)
  moreover have "refs example_repository ''refs/keep-around/1'' = Some oidA"
    by (simp add: example_repository_def)
  ultimately show ?thesis using s run by simp
qed

section \<open>Rescuing dangling objects\<close>

lemma SplitN_3:
  "SplitN s sep 3 =
     (case cut sep s of
        None \<Rightarrow> [s]
      | Some (a, rest) \<Rightarrow>
          (case cut sep rest of None \<Rightarrow> [a, rest] | Some (b, c) \<Rightarrow> [a, b, c]))"
  by (simp add: numeral_3_eq_3 split: option.splits)

declare stageDangling.simps(2) [simp del]

lemma stageDangling_Cons:
  "stageDangling u (line # rest) =
     (case reported line of
        None \<Rightarrow> stageDangling u rest
      | Some oid \<Rightarrow>
          (case stage (rescue oid) u of
             (Some e, u') \<Rightarrow> (Some e, u')
           | (None, u') \<Rightarrow> stageDangling u' rest))"
proof (cases "cut space line")
  case None
  then show ?thesis by (simp add: stageDangling.simps(2) SplitN_3 reported_def)
next
  case (Some p)
  obtain word rest' where p: "p = (word, rest')" by (cases p)
  show ?thesis
  proof (cases "cut space rest'")
    case None
    then show ?thesis using Some p by (simp add: stageDangling.simps(2) SplitN_3 reported_def)
  next
    case (Some q)
    obtain type oid where q: "q = (type, oid)" by (cases q)
    have split: "SplitN line space 3 = [word, type, oid]"
      using \<open>cut space line = Some p\<close> p Some q by (simp add: SplitN_3)
    have rep: "reported line = (if word = ''dangling'' then Some oid else None)"
      using \<open>cut space line = Some p\<close> p Some q by (simp add: reported_def)
    show ?thesis
      unfolding stageDangling.simps(2) split rep Let_def
      by (cases "word = ''dangling''") (simp_all add: rescue_def)
  qed
qed


lemma stageDangling_Open:
  "state u = Open \<Longrightarrow>
     stageDangling u lines =
       (None, u\<lparr>staged := staged u @ map rescue (List.map_filter reported lines)\<rparr>)"
proof (induction lines arbitrary: u)
  case Nil
  then show ?case by (simp add: List.map_filter_simps)
next
  case (Cons line rest)
  show ?case
  proof (cases "reported line")
    case None
    then show ?thesis using Cons by (simp add: stageDangling_Cons List.map_filter_simps)
  next
    case (Some oid)
    let ?u1 = "u\<lparr>staged := staged u @ [rescue oid]\<rparr>"
    have "stageDangling u (line # rest) = stageDangling ?u1 rest"
      using Some Cons.prems by (simp add: stageDangling_Cons stage_def)
    also have "\<dots> = (None, ?u1\<lparr>staged := staged ?u1 @ map rescue (List.map_filter reported rest)\<rparr>)"
      using Cons.prems by (intro Cons.IH) simp
    finally show ?thesis using Some by (simp add: List.map_filter_simps)
  qed
qed

lemma reported_dangling_line:
  "space \<notin> set type \<Longrightarrow> reported (dangling_line type oid) = Some oid"
proof -
  assume t: "space \<notin> set type"
  have 1: "cut space (dangling_line type oid) = Some (''dangling'', type @ space # oid)"
    using cut_append[of space "''dangling''" "type @ space # oid"]
    by (simp add: dangling_line_def space_def)
  have 2: "cut space (type @ space # oid) = Some (type, oid)"
    using t by (rule cut_append)
  show ?thesis by (simp add: reported_def 1 2)
qed

lemma reported_iff:
  "reported line = Some oid \<longleftrightarrow>
     (\<exists>type. space \<notin> set type \<and> line = dangling_line type oid)"
proof
  assume "reported line = Some oid"
  then obtain rest type where "cut space line = Some (''dangling'', rest)"
    "cut space rest = Some (type, oid)"
    by (auto simp: reported_def split: option.splits if_splits)
  then have "line = ''dangling'' @ space # rest" "rest = type @ space # oid" "space \<notin> set type"
    by (simp_all add: cut_Some_iff)
  then show "\<exists>type. space \<notin> set type \<and> line = dangling_line type oid"
    by (auto simp: dangling_line_def space_def)
next
  assume "\<exists>type. space \<notin> set type \<and> line = dangling_line type oid"
  then show "reported line = Some oid" using reported_dangling_line by auto
qed

lemma rescueDanglingObjects_executed:
  "rescueDanglingObjects env pool = (r, pool') \<Longrightarrow> executed pool' = executed pool @ [''fsck'']"
  by (auto simp: rescueDanglingObjects_def Let_def split: option.splits prod.splits)

lemma rescueDanglingObjects_ok:
  assumes "rescueDanglingObjects env pool = (None, pool')"
  shows "\<exists>u'. Commit ((New True)\<lparr>staged :=
             map rescue (List.map_filter reported (fst (scan (fsck_stdout env (Repo pool)))))\<rparr>)
           (Repo pool) = (None, u', Repo pool')"
proof -
  have st: "stageDangling (New True) lines =
      (None, (New True)\<lparr>staged := map rescue (List.map_filter reported lines)\<rparr>)" for lines
    using stageDangling_Open[of "New True" lines] by (simp add: New_def)
  show ?thesis
    using assms
    by (auto simp: rescueDanglingObjects_def Let_def st split: option.splits prod.splits)
qed

lemma Commit_disabled_ok:
  assumes "Commit ((New True)\<lparr>staged := ops\<rparr>) repo = (None, u', repo')"
  shows "(ops = [] \<and> repo' = repo) \<or>
         (ops \<noteq> [] \<and> (\<exists>rs. apply_ops (store_accepts repo) (refs repo) ops = Some rs \<and>
             repo' = repo\<lparr>refs := rs, commit_log := commit_log repo @ [ops]\<rparr>))"
  using assms by (auto simp: Commit_def New_def split: if_splits option.splits)

lemma apply_ops_rescue_Cons:
  "apply_ops acc rs (map rescue (x # xs)) = Some rs' \<Longrightarrow>
     apply_ops acc (rs(danglingObjectNamespace @ x \<mapsto> x)) (map rescue xs) = Some rs'"
  by (cases "acc rs (rescue x)") (simp_all add: rescue_def)

lemma apply_ops_rescue_cases:
  "apply_ops acc rs (map rescue oids) = Some rs' \<Longrightarrow>
     rs' name = rs name \<or>
     (\<exists>oid \<in> set oids. name = danglingObjectNamespace @ oid \<and> rs' name = Some oid)"
proof (induction oids arbitrary: rs)
  case Nil
  then show ?case by simp
next
  case (Cons x xs)
  let ?rs1 = "rs(danglingObjectNamespace @ x \<mapsto> x)"
  have "apply_ops acc ?rs1 (map rescue xs) = Some rs'"
    using Cons.prems by (rule apply_ops_rescue_Cons)
  from Cons.IH[OF this]
  consider "rs' name = ?rs1 name"
    | "\<exists>oid \<in> set xs. name = danglingObjectNamespace @ oid \<and> rs' name = Some oid"
    by blast
  then show ?case
  proof cases
    case 1
    then show ?thesis by (cases "name = danglingObjectNamespace @ x") simp_all
  next
    case 2
    then show ?thesis by auto
  qed
qed

lemma apply_ops_rescued:
  assumes "apply_ops acc rs (map rescue oids) = Some rs'" and "oid \<in> set oids"
  shows "rs' (danglingObjectNamespace @ oid) = Some oid"
  using assms
proof (induction oids arbitrary: rs)
  case Nil
  then show ?case by simp
next
  case (Cons x xs)
  let ?rs1 = "rs(danglingObjectNamespace @ x \<mapsto> x)"
  have rest: "apply_ops acc ?rs1 (map rescue xs) = Some rs'"
    using Cons.prems(1) by (rule apply_ops_rescue_Cons)
  show ?case
  proof (cases "oid \<in> set xs")
    case True
    then show ?thesis using Cons.IH[OF rest] by simp
  next
    case False
    then have "oid = x" using Cons.prems(2) by simp
    then show ?thesis
      using apply_ops_rescue_cases[OF rest, of "danglingObjectNamespace @ x"] by auto
  qed
qed

lemma apply_ops_rescue_keeps:
  assumes "apply_ops acc rs (map rescue oids) = Some rs'" and "rescue_refs_consistent rs"
  shows "rescue_refs_consistent rs'" and "rs name = Some target \<Longrightarrow> rs' name = Some target"
proof -
  show "rescue_refs_consistent rs'"
    unfolding rescue_refs_consistent_def
  proof (intro allI impI)
    fix oid target assume a: "rs' (danglingObjectNamespace @ oid) = Some target"
    from apply_ops_rescue_cases[OF assms(1), of "danglingObjectNamespace @ oid"]
    show "target = oid"
      using a assms(2) by (auto simp: rescue_refs_consistent_def)
  qed
  show "rs' name = Some target" if "rs name = Some target"
    using apply_ops_rescue_cases[OF assms(1), of name] that assms(2)
    by (auto simp: rescue_refs_consistent_def)
qed

lemma reaches_objects:
  assumes "objects repo' = objects repo" and "reaches repo a b"
  shows "reaches repo' a b"
  using assms(2)
proof (induction rule: reaches.induct)
  case self
  then show ?case by (rule reaches.self)
next
  case (step b children c)
  then show ?case using assms(1) by (auto intro: reaches.step)
qed

lemma FetchFromOrigin_ok:
  assumes "FetchFromOrigin env pool = (None, pool')"
  shows "\<exists>pool2. rescueDanglingObjects env
            (pool\<lparr>executed := executed pool @ [''fetch''], Repo := fetch_effect env (Repo pool)\<rparr>)
            = (None, pool2) \<and>
          pool' = pool2\<lparr>executed := executed pool2 @ [''pack-refs'', ''repack'']\<rparr>"
  using assms
  by (auto simp: FetchFromOrigin_def repackPool_def Let_def
      split: option.splits sum.splits prod.splits)

lemma reported_in_lines:
  "oid \<in> set (List.map_filter reported lines) \<longleftrightarrow>
     (\<exists>type. space \<notin> set type \<and> dangling_line type oid \<in> set lines)"
proof -
  have "oid \<in> set (List.map_filter reported lines) \<longleftrightarrow>
      (\<exists>line \<in> set lines. reported line = Some oid)"
    by (induction lines) (auto simp: List.map_filter_simps split: option.splits)
  also have "\<dots> \<longleftrightarrow> (\<exists>type. space \<notin> set type \<and> dangling_line type oid \<in> set lines)"
    by (auto simp: reported_iff)
  finally show ?thesis .
qed

lemma rescue_commit:
  assumes "Commit ((New True)\<lparr>staged := map rescue oids\<rparr>) repo = (None, u', repo')"
  shows "\<forall>oid \<in> set oids. refs repo' (danglingObjectNamespace @ oid) = Some oid"
    and "rescue_refs_consistent (refs repo) \<Longrightarrow> rescue_refs_consistent (refs repo')"
    and "rescue_refs_consistent (refs repo) \<Longrightarrow> refs repo name = Some target \<Longrightarrow>
           refs repo' name = Some target"
    and "objects repo' = objects repo"
    and "hook_invocations repo' = hook_invocations repo"
    and "commit_log repo' = commit_log repo @ (if oids = [] then [] else [map rescue oids])"
proof -
  from Commit_disabled_ok[OF assms]
  consider (empty) "oids = []" "repo' = repo"
    | (batch) rs where "oids \<noteq> []"
        "apply_ops (store_accepts repo) (refs repo) (map rescue oids) = Some rs"
        "repo' = repo\<lparr>refs := rs, commit_log := commit_log repo @ [map rescue oids]\<rparr>"
    by auto
  then have
    "(\<forall>oid \<in> set oids. refs repo' (danglingObjectNamespace @ oid) = Some oid) \<and>
     (rescue_refs_consistent (refs repo) \<longrightarrow> rescue_refs_consistent (refs repo')) \<and>
     (rescue_refs_consistent (refs repo) \<longrightarrow> refs repo name = Some target \<longrightarrow>
           refs repo' name = Some target) \<and>
     objects repo' = objects repo \<and> hook_invocations repo' = hook_invocations repo \<and>
     commit_log repo' = commit_log repo @ (if oids = [] then [] else [map rescue oids])"
  proof cases
    case empty
    then show ?thesis by simp
  next
    case batch
    show ?thesis
      using batch(1) apply_ops_rescued[OF batch(2)] apply_ops_rescue_keeps[OF batch(2)]
      by (simp add: batch(3))
  qed
  then show "\<forall>oid \<in> set oids. refs repo' (danglingObjectNamespace @ oid) = Some oid"
    and "rescue_refs_consistent (refs repo) \<Longrightarrow> rescue_refs_consistent (refs repo')"
    and "rescue_refs_consistent (refs repo) \<Longrightarrow> refs repo name = Some target \<Longrightarrow>
           refs repo' name = Some target"
    and "objects repo' = objects repo"
    and "hook_invocations repo' = hook_invocations repo"
    and "commit_log repo' = commit_log repo @ (if oids = [] then [] else [map rescue oids])"
    by blast+
qed

section \<open>Claims about the Object Pool Manager\<close>

text \<open>
  Claim C6. Let \<open>FetchFromOrigin\<close> succeed, let \<open>repo1\<close> be the pool repository as the
  fetch left it and \<open>lines\<close> what the connectivity scan printed for it. Then for every
  object the scan reports as dangling the reference \<open>refs/dangling/<oid>\<close> exists
  afterwards and points to it; these creations, and nothing else, were applied as one
  batch (none when the scan reports nothing), and the reference-transaction hook was not
  invoked for it (transactions are disabled); the objects are those of \<open>repo1\<close>.
  Consequently, if the scan finds every object no reference reaches (it reports the
  object or a dangling object that reaches it), and the pool's references are under
  \<open>refs/remotes/origin/\<close> or are rescue references of the objects they are named
  after, then afterwards every object of the pool is reachable from a reference under
  \<open>refs/remotes/origin/\<close> or \<open>refs/dangling/\<close>.
\<close>

theorem fetched_objects_are_referenced:
  assumes "FetchFromOrigin env pool = (None, pool')"
    and "repo1 = fetch_effect env (Repo pool)"
    and "lines = fst (scan (fsck_stdout env repo1))"
  shows "(\<forall>type oid. space \<notin> set type \<and> dangling_line type oid \<in> set lines \<longrightarrow>
            refs (Repo pool') (danglingObjectNamespace @ oid) = Some oid) \<and>
         commit_log (Repo pool') =
           commit_log repo1 @
             (if List.map_filter reported lines = [] then []
              else [map rescue (List.map_filter reported lines)]) \<and>
         hook_invocations (Repo pool') = hook_invocations repo1 \<and>
         objects (Repo pool') = objects repo1 \<and>
         (scan_finds_unreachable repo1 lines \<and> rescue_refs_consistent (refs repo1) \<and>
          (\<forall>name \<in> dom (refs repo1). in_pool_namespaces name) \<longrightarrow>
            (\<forall>oid \<in> dom (objects repo1). reachable_from in_pool_namespaces (Repo pool') oid) \<and>
            rescue_refs_consistent (refs (Repo pool')))"
proof -
  let ?oids = "List.map_filter reported lines"
  from FetchFromOrigin_ok[OF assms(1)] obtain pool2 where
    r: "rescueDanglingObjects env
          (pool\<lparr>executed := executed pool @ [''fetch''], Repo := fetch_effect env (Repo pool)\<rparr>)
        = (None, pool2)"
    and p: "pool' = pool2\<lparr>executed := executed pool2 @ [''pack-refs'', ''repack'']\<rparr>"
    by blast
  from rescueDanglingObjects_ok[OF r] obtain u' where
    c: "Commit ((New True)\<lparr>staged := map rescue ?oids\<rparr>) repo1 = (None, u', Repo pool')"
    using assms(2,3) p by auto
  note rc = rescue_commit[OF c]
  have a: "\<forall>type oid. space \<notin> set type \<and> dangling_line type oid \<in> set lines \<longrightarrow>
            refs (Repo pool') (danglingObjectNamespace @ oid) = Some oid"
    using rc(1) reported_in_lines[of _ lines] by blast
  have d: "(\<forall>oid \<in> dom (objects repo1). reachable_from in_pool_namespaces (Repo pool') oid) \<and>
            rescue_refs_consistent (refs (Repo pool'))"
    if h: "scan_finds_unreachable repo1 lines \<and> rescue_refs_consistent (refs repo1) \<and>
          (\<forall>name \<in> dom (refs repo1). in_pool_namespaces name)"
  proof
    show "rescue_refs_consistent (refs (Repo pool'))" using rc(2) h by simp
    show "\<forall>oid \<in> dom (objects repo1). reachable_from in_pool_namespaces (Repo pool') oid"
    proof
      fix oid assume o: "oid \<in> dom (objects repo1)"
      show "reachable_from in_pool_namespaces (Repo pool') oid"
      proof (cases "reachable repo1 oid")
        case True
        then obtain name root where n: "refs repo1 name = Some root" "reaches repo1 root oid"
          by (auto simp: reachable_def reachable_from_def)
        have "in_pool_namespaces name" using n(1) h by auto
        moreover have "refs (Repo pool') name = Some root" using rc(3) n(1) h by simp
        moreover have "reaches (Repo pool') root oid" using reaches_objects[OF rc(4) n(2)] .
        ultimately show ?thesis by (auto simp: reachable_from_def)
      next
        case False
        then obtain type tip where t: "space \<notin> set type" "dangling_line type tip \<in> set lines"
          "reaches repo1 tip oid"
          using h o by (auto simp: scan_finds_unreachable_def)
        have "refs (Repo pool') (danglingObjectNamespace @ tip) = Some tip" using a t(1,2) by blast
        moreover have "in_pool_namespaces (danglingObjectNamespace @ tip)"
          by (simp add: in_pool_namespaces_def)
        moreover have "reaches (Repo pool') tip oid" using reaches_objects[OF rc(4) t(3)] .
        ultimately show ?thesis by (auto simp: reachable_from_def)
      qed
    qed
  qed
  show ?thesis using a rc(4,5,6) d by blast
qed

lemma example_fsck_lines: "scan example_fsck_output = (example_scan_lines, None)"
proof -
  have d: "dangling_line ''commit'' oidC = ''dangling commit '' @ oidC"
    by (simp add: dangling_line_def space_def)
  have "\<forall>l \<in> set example_scan_lines. newline \<notin> set l \<and> length l < MaxScanTokenSize"
    using example_oid_facts(3,13)
    by (simp add: example_scan_lines_def d MaxScanTokenSize_def) (simp add: newline_def)
  moreover have "map dropCR example_scan_lines = example_scan_lines"
    using example_oid_facts(3,18) oid_nonempty[of oidC]
    by (simp add: example_scan_lines_def d dropCR_def) (simp add: carriage_return_def)
  ultimately show ?thesis
    using scan_text_of_lines[of example_scan_lines None] by (simp add: example_fsck_output_def)
qed

lemma example_reported: "List.map_filter reported example_scan_lines = [oidC]"
proof -
  have "reported ''Checking connectivity: done.'' = None"
    "reported ''notice: HEAD points to an unborn branch (master)'' = None"
    by (simp_all add: reported_def space_def)
  moreover have "reported (dangling_line ''commit'' oidC) = Some oidC"
    by (rule reported_dangling_line) (simp add: space_def)
  ultimately show ?thesis by (simp add: example_scan_lines_def List.map_filter_simps)
qed

lemma example_dangling_line: "dangling_line ''commit'' oidC \<in> set example_scan_lines"
  by (simp add: example_scan_lines_def)

lemma example_fetched_fields:
  "refs example_fetched = [''refs/remotes/origin/heads/main'' \<mapsto> oidA]"
  "objects example_fetched = [oidA \<mapsto> [], oidC \<mapsto> []]"
  "store_accepts example_fetched = (\<lambda>rs x. True)"
  "commit_log example_fetched = []" "hook_invocations example_fetched = []"
  by (simp_all add: example_fetched_def example_env_def example_pool_def)

lemma example_rescue:
  "rescueDanglingObjects example_env \<lparr>Repo = example_fetched, executed = [''fetch'']\<rparr> =
     (None, \<lparr>Repo = example_fetched
               \<lparr>refs := (refs example_fetched)(danglingObjectNamespace @ oidC \<mapsto> oidC),
                commit_log := [[rescue oidC]]\<rparr>,
             executed = [''fetch'', ''fsck'']\<rparr>)"
proof -
  have env: "fsck_start example_env = None" "updater_new example_env = None"
    "fsck_wait example_env = None" "fsck_stdout example_env = (\<lambda>repo. example_fsck_output)"
    by (simp_all add: example_env_def)
  have st: "stageDangling (New True) example_scan_lines =
      (None, (New True)\<lparr>staged := [rescue oidC]\<rparr>)"
    using stageDangling_Open[of "New True" example_scan_lines]
    by (simp add: example_reported) (simp add: New_def)
  have co: "Commit ((New True)\<lparr>staged := [rescue oidC]\<rparr>) example_fetched =
      (None, (New True)\<lparr>staged := [rescue oidC], state := Committed\<rparr>,
       example_fetched\<lparr>refs := (refs example_fetched)(danglingObjectNamespace @ oidC \<mapsto> oidC),
                commit_log := [[rescue oidC]]\<rparr>)"
    by (simp add: Commit_def New_def example_fetched_fields) (simp add: rescue_def)
  show ?thesis
    by (simp add: rescueDanglingObjects_def env st co example_fsck_lines)
qed

lemma example_env_runs:
  "init_result example_env = None" "origin_path example_env = Inr ''/repos/origin.git''"
  "clean_stale_data example_env = None" "log_stats example_env = (\<lambda>when. None)"
  "exit_error (fetch_run example_env) = None"
  "exit_error (pack_refs_run example_env) = None"
  "exit_error (repack_run example_env) = None"
  by (simp_all add: example_env_def)

lemma example_fetch:
  "FetchFromOrigin example_env example_pool =
     (None, \<lparr>Repo = example_fetched
               \<lparr>refs := (refs example_fetched)(danglingObjectNamespace @ oidC \<mapsto> oidC),
                commit_log := [[rescue oidC]]\<rparr>,
             executed = [''fetch'', ''fsck'', ''pack-refs'', ''repack'']\<rparr>)"
proof -
  have p: "example_pool\<lparr>executed := executed example_pool @ [''fetch''],
                        Repo := fetch_effect example_env (Repo example_pool)\<rparr> =
           \<lparr>Repo = example_fetched, executed = [''fetch'']\<rparr>"
    by (simp add: example_pool_def example_fetched_def)
  show ?thesis
    by (simp add: FetchFromOrigin_def example_env_runs Let_def p example_rescue repackPool_def)
qed

theorem fetched_objects_are_referenced_witness:
  "fst (FetchFromOrigin example_env example_pool) = None \<and>
   refs (Repo (snd (FetchFromOrigin example_env example_pool)))
     (danglingObjectNamespace @ oidC) = Some oidC \<and>
   commit_log (Repo (snd (FetchFromOrigin example_env example_pool))) = [[rescue oidC]] \<and>
   hook_invocations (Repo (snd (FetchFromOrigin example_env example_pool))) = [] \<and>
   reachable_from in_pool_namespaces (Repo (snd (FetchFromOrigin example_env example_pool))) oidA \<and>
   reachable_from in_pool_namespaces (Repo (snd (FetchFromOrigin example_env example_pool))) oidC"
proof -
  let ?lines = "example_scan_lines"
  obtain pool' where run: "FetchFromOrigin example_env example_pool = (None, pool')"
    using example_fetch by simp
  have lines: "?lines = fst (scan (fsck_stdout example_env example_fetched))"
    by (simp add: example_env_def example_fsck_lines)
  have reach_A: "reachable example_fetched oidA"
    unfolding reachable_def reachable_from_def
    by (intro exI[of _ "''refs/remotes/origin/heads/main''"] exI[of _ oidA])
       (simp add: example_fetched_fields reaches.self)
  have finds: "scan_finds_unreachable example_fetched ?lines"
    unfolding scan_finds_unreachable_def
  proof (intro ballI impI)
    fix oid assume "oid \<in> dom (objects example_fetched)" and "\<not> reachable example_fetched oid"
    then have "oid = oidC" using reach_A by (auto simp: example_fetched_fields split: if_splits)
    then show "\<exists>type tip. space \<notin> set type \<and> dangling_line type tip \<in> set ?lines \<and>
        reaches example_fetched tip oid"
      using example_dangling_line
      by (intro exI[of _ "''commit''"] exI[of _ oidC]) (simp add: space_def reaches.self)
  qed
  have cons: "rescue_refs_consistent (refs example_fetched)"
    by (simp add: rescue_refs_consistent_def example_fetched_fields danglingObjectNamespace_def)
  have ns: "\<forall>name \<in> dom (refs example_fetched). in_pool_namespaces name"
    by (simp add: example_fetched_fields in_pool_namespaces_def sourceRefNamespace_def)
  note inst = fetched_objects_are_referenced[OF run example_fetched_def lines]
  have "space \<notin> set ''commit'' \<and> dangling_line ''commit'' oidC \<in> set example_scan_lines"
    using example_dangling_line by (simp add: space_def)
  then have "refs (Repo pool') (danglingObjectNamespace @ oidC) = Some oidC"
    using inst by blast
  moreover have "commit_log (Repo pool') = commit_log example_fetched @ [map rescue [oidC]]"
    "hook_invocations (Repo pool') = hook_invocations example_fetched"
    "\<forall>oid \<in> dom (objects example_fetched). reachable_from in_pool_namespaces (Repo pool') oid"
    using inst finds cons ns by (simp_all add: example_reported)
  ultimately show ?thesis using run by (simp add: example_fetched_fields)
qed

lemma FetchFromOrigin_cases:
  assumes "FetchFromOrigin env pool = (r, pool')"
  shows "(executed pool' = executed pool \<and> Repo pool' = Repo pool \<and> r \<noteq> None) \<or>
         (executed pool' = executed pool @ [''fetch''] \<and> Repo pool' = Repo pool \<and>
            (\<exists>e. exit_error (fetch_run env) = Some e \<and>
                 r = Some (ErrFetchIntoObjectPool e (stderr_text (fetch_run env))))) \<or>
         (exit_error (fetch_run env) = None \<and>
            executed pool' = executed pool @ [''fetch'', ''fsck''] \<and> r \<noteq> None) \<or>
         (exit_error (fetch_run env) = None \<and>
            executed pool' = executed pool @ [''fetch'', ''fsck'', ''pack-refs''] \<and>
            r \<noteq> None \<and> r = exit_error (pack_refs_run env)) \<or>
         (exit_error (fetch_run env) = None \<and>
            executed pool' = executed pool @ [''fetch'', ''fsck'', ''pack-refs'', ''repack''] \<and>
            r = exit_error (repack_run env))"
proof (cases "init_result env = None \<and> (\<exists>p. origin_path env = Inr p) \<and>
    clean_stale_data env = None \<and> log_stats env ''before fetch'' = None")
  case False
  then consider "init_result env \<noteq> None"
    | "init_result env = None" "\<exists>e. origin_path env = Inl e"
    | "init_result env = None" "\<exists>p. origin_path env = Inr p" "clean_stale_data env \<noteq> None"
    | "init_result env = None" "\<exists>p. origin_path env = Inr p" "clean_stale_data env = None"
      "log_stats env ''before fetch'' \<noteq> None"
    by (cases "origin_path env") auto
  then have "executed pool' = executed pool \<and> Repo pool' = Repo pool \<and> r \<noteq> None"
    using assms by cases (auto simp: FetchFromOrigin_def, (metis)+)
  then show ?thesis by simp
next
  case True
  note before = True
  show ?thesis
  proof (cases "exit_error (fetch_run env)")
    case (Some e)
    then show ?thesis using assms before by (auto simp: FetchFromOrigin_def Let_def)
  next
    case None
    let ?p1 = "pool\<lparr>executed := executed pool @ [''fetch''],
                     Repo := fetch_effect env (Repo pool)\<rparr>"
    obtain r2 pool2 where resc: "rescueDanglingObjects env ?p1 = (r2, pool2)"
      by (cases "rescueDanglingObjects env ?p1")
    have ex2: "executed pool2 = executed pool @ [''fetch'', ''fsck'']"
      using rescueDanglingObjects_executed[OF resc] by simp
    show ?thesis
      using assms before None resc ex2
      by (auto simp: FetchFromOrigin_def repackPool_def Let_def split: option.splits,
          (metis)+)
  qed
qed

text \<open>
  Claim C7, as amended. The claim: fetch failures and repack failures inside
  \<open>FetchFromOrigin\<close> are both returned wrapped with the captured standard-error text of
  the failed Git invocation, and neither is retried. The code captures the standard
  error of the fetch only. What holds: \<open>FetchFromOrigin\<close> invokes \<open>git fetch\<close> and
  \<open>git repack\<close> at most once each; when the fetch is invoked and fails, the result is
  the error that wraps the fetch's error together with its standard-error text, nothing
  is invoked after it and the pool repository is unchanged; when the repack is invoked,
  it is the last invocation and \<open>FetchFromOrigin\<close> returns what the repack returned, as
  it is: its error without any standard-error text.
\<close>

theorem fetch_failure_wrapped_repack_failure_plain:
  assumes "FetchFromOrigin env pool = (r, pool')"
  shows "\<exists>invoked. executed pool' = executed pool @ invoked \<and>
           count_list invoked ''fetch'' \<le> 1 \<and> count_list invoked ''repack'' \<le> 1 \<and>
           (\<forall>e. ''fetch'' \<in> set invoked \<and> exit_error (fetch_run env) = Some e \<longrightarrow>
                r = Some (ErrFetchIntoObjectPool e (stderr_text (fetch_run env))) \<and>
                invoked = [''fetch''] \<and> Repo pool' = Repo pool) \<and>
           (''repack'' \<in> set invoked \<longrightarrow>
                r = exit_error (repack_run env) \<and> last invoked = ''repack'')"
proof -
  from FetchFromOrigin_cases[OF assms]
  consider (early) "executed pool' = executed pool @ []"
    | (fetch) e where "executed pool' = executed pool @ [''fetch'']" "Repo pool' = Repo pool"
        "exit_error (fetch_run env) = Some e"
        "r = Some (ErrFetchIntoObjectPool e (stderr_text (fetch_run env)))"
    | (fsck) "exit_error (fetch_run env) = None"
        "executed pool' = executed pool @ [''fetch'', ''fsck'']"
    | (pack) "exit_error (fetch_run env) = None"
        "executed pool' = executed pool @ [''fetch'', ''fsck'', ''pack-refs'']"
    | (repack) "exit_error (fetch_run env) = None"
        "executed pool' = executed pool @ [''fetch'', ''fsck'', ''pack-refs'', ''repack'']"
        "r = exit_error (repack_run env)"
    by auto
  then show ?thesis
  proof cases
    case early
    then show ?thesis by (intro exI[of _ "[]"]) simp
  next
    case fetch
    then show ?thesis by (intro exI[of _ "[''fetch'']"]) simp
  next
    case fsck
    then show ?thesis by (intro exI[of _ "[''fetch'', ''fsck'']"]) simp
  next
    case pack
    then show ?thesis by (intro exI[of _ "[''fetch'', ''fsck'', ''pack-refs'']"]) simp
  next
    case repack
    then show ?thesis
      by (intro exI[of _ "[''fetch'', ''fsck'', ''pack-refs'', ''repack'']"]) simp
  qed
qed

lemma example_fetch_fails:
  "FetchFromOrigin example_env_fetch_fails example_pool =
     (Some (ErrFetchIntoObjectPool (ErrOther ''exit status 128'')
              ''fatal: could not read from remote repository''),
      example_pool\<lparr>executed := [''fetch'']\<rparr>)"
  by (simp add: FetchFromOrigin_def example_env_fetch_fails_def example_env_def example_pool_def)

lemma example_repack_fails:
  "FetchFromOrigin example_env_repack_fails example_pool =
     (Some (ErrOther ''exit status 128''),
      \<lparr>Repo = example_fetched
               \<lparr>refs := (refs example_fetched)(danglingObjectNamespace @ oidC \<mapsto> oidC),
                commit_log := [[rescue oidC]]\<rparr>,
             executed = [''fetch'', ''fsck'', ''pack-refs'', ''repack'']\<rparr>)"
proof -
  have same: "rescueDanglingObjects example_env_repack_fails = rescueDanglingObjects example_env"
    by (intro ext)
       (simp add: rescueDanglingObjects_def example_env_repack_fails_def
          cong: option.case_cong prod.case_cong)
  have p: "example_pool\<lparr>executed := executed example_pool @ [''fetch''],
                        Repo := fetch_effect example_env_repack_fails (Repo example_pool)\<rparr> =
           \<lparr>Repo = example_fetched, executed = [''fetch'']\<rparr>"
    by (simp add: example_pool_def example_fetched_def example_env_repack_fails_def)
  have runs: "init_result example_env_repack_fails = None"
    "origin_path example_env_repack_fails = Inr ''/repos/origin.git''"
    "clean_stale_data example_env_repack_fails = None"
    "log_stats example_env_repack_fails = (\<lambda>when. None)"
    "exit_error (fetch_run example_env_repack_fails) = None"
    "exit_error (pack_refs_run example_env_repack_fails) = None"
    "exit_error (repack_run example_env_repack_fails) = Some (ErrOther ''exit status 128'')"
    by (simp_all add: example_env_repack_fails_def example_env_def)
  show ?thesis
    by (simp add: FetchFromOrigin_def runs Let_def p same example_rescue repackPool_def)
qed

theorem fetch_failure_wrapped_repack_failure_plain_witness:
  "fst (FetchFromOrigin example_env_fetch_fails example_pool) =
     Some (ErrFetchIntoObjectPool (ErrOther ''exit status 128'')
             ''fatal: could not read from remote repository'') \<and>
   executed (snd (FetchFromOrigin example_env_fetch_fails example_pool)) = [''fetch''] \<and>
   fst (FetchFromOrigin example_env_repack_fails example_pool) =
     Some (ErrOther ''exit status 128'') \<and>
   count_list (executed (snd (FetchFromOrigin example_env_repack_fails example_pool)))
     ''repack'' = 1"
proof -
  obtain r1 p1 where run1: "FetchFromOrigin example_env_fetch_fails example_pool = (r1, p1)"
    by (cases "FetchFromOrigin example_env_fetch_fails example_pool")
  obtain r2 p2 where run2: "FetchFromOrigin example_env_repack_fails example_pool = (r2, p2)"
    by (cases "FetchFromOrigin example_env_repack_fails example_pool")
  have e1: "executed p1 = [''fetch'']" using run1 example_fetch_fails by auto
  have e2: "executed p2 = [''fetch'', ''fsck'', ''pack-refs'', ''repack'']"
    using run2 example_repack_fails by auto
  have f1: "exit_error (fetch_run example_env_fetch_fails) = Some (ErrOther ''exit status 128'')"
    "stderr_text (fetch_run example_env_fetch_fails) =
       ''fatal: could not read from remote repository''"
    by (simp_all add: example_env_fetch_fails_def)
  have f2: "exit_error (repack_run example_env_repack_fails) = Some (ErrOther ''exit status 128'')"
    by (simp add: example_env_repack_fails_def)
  from fetch_failure_wrapped_repack_failure_plain[OF run1]
  have "r1 = Some (ErrFetchIntoObjectPool (ErrOther ''exit status 128'')
             ''fatal: could not read from remote repository'')"
    using e1 f1 by (auto simp: example_pool_def)
  moreover from fetch_failure_wrapped_repack_failure_plain[OF run2]
  have "r2 = Some (ErrOther ''exit status 128'')"
    using e2 f2 by (auto simp: example_pool_def)
  ultimately show ?thesis using run1 run2 e1 e2 by simp
qed

theorem repack_failure_returned_without_stderr:
  "exit_error (repack_run example_env_repack_fails) = Some (ErrOther ''exit status 128'') \<and>
   stderr_text (repack_run example_env_repack_fails) = ''fatal: unable to create temporary file'' \<and>
   fst (FetchFromOrigin example_env_repack_fails example_pool) = Some (ErrOther ''exit status 128'') \<and>
   \<not> carries_stderr (ErrOther ''exit status 128'') ''fatal: unable to create temporary file''"
  by (simp add: example_repack_fails) (simp add: example_env_repack_fails_def)

section \<open>The merge engine\<close>

lemma verify_first_missing:
  "verify m = map_option (\<lambda>field. ''missing '' @ field) (first_missing m)"
  by (simp add: verify_def first_missing_def required_fields_def)

lemma Merge_invalid:
  "verify m = Some what \<Longrightarrow> Merge w m = (Inl (InvalidParameters what), w)"
  by (simp add: Merge_def)

lemma Merge_cannot_open:
  "verify m = None \<Longrightarrow> repositories w (Repository m) = None \<Longrightarrow>
     Merge w m =
       (Inl (CouldNotOpenRepository (Repository m)), w\<lparr>opened := opened w @ [Repository m]\<rparr>)"
  by (simp add: Merge_def)

section \<open>Claims about the Merge Engine\<close>

text \<open>
  Claim C2. A command with a missing required field fails validation with the error
  that names the first missing field in the order repository path, author name, author
  mail, message, ours, theirs, and then, only when a committer field is set, committer
  name, committer mail, committer date; the world is unchanged, so no repository was
  opened, whether the path exists or not. A command with no missing field and a path
  that is no repository fails with the error "could not open repository", a different
  error, after one attempt to open it.
\<close>

theorem validation_names_first_missing_field:
  "(first_missing m = Some field \<longrightarrow>
      Merge w m = (Inl (InvalidParameters (''missing '' @ field)), w) \<and>
      error_text (InvalidParameters (''missing '' @ field)) =
        ''merge: invalid parameters: missing '' @ field) \<and>
   (first_missing m = None \<and> repositories w (Repository m) = None \<longrightarrow>
      Merge w m =
        (Inl (CouldNotOpenRepository (Repository m)), w\<lparr>opened := opened w @ [Repository m]\<rparr>) \<and>
      (\<forall>what. CouldNotOpenRepository (Repository m) \<noteq> InvalidParameters what))"
  by (simp add: Merge_invalid Merge_cannot_open verify_first_missing)

lemma test_requests_first_missing:
  "first_missing zero_command = Some ''repository''"
  "first_missing request_missing_repository = Some ''repository''"
  "first_missing request_missing_author_name = Some ''author name''"
  "first_missing request_missing_author_mail = Some ''author mail''"
  "first_missing request_missing_message = Some ''message''"
  "first_missing request_missing_ours = Some ''ours''"
  "first_missing request_missing_theirs = Some ''theirs''"
  "first_missing request_missing_committer_mail = Some ''committer mail''"
  "first_missing request_missing_committer_name = Some ''committer name''"
  "first_missing request_missing_committer_date = Some ''committer date''"
  "first_missing request_invalid_repository_path = None"
  by (simp_all add: first_missing_def required_fields_def zero_command_def repoPath_def
      request_missing_repository_def request_missing_author_name_def
      request_missing_author_mail_def request_missing_message_def request_missing_ours_def
      request_missing_theirs_def request_missing_committer_mail_def
      request_missing_committer_name_def request_missing_committer_date_def
      request_invalid_repository_path_def)

theorem validation_names_first_missing_field_witness:
  "map (\<lambda>request. case fst (Merge squash_world request) of Inl e \<Rightarrow> error_text e | Inr r \<Rightarrow> [])
     [zero_command, request_missing_repository, request_missing_author_name,
      request_missing_author_mail, request_missing_message, request_missing_ours,
      request_missing_theirs, request_missing_committer_mail, request_missing_committer_name,
      request_missing_committer_date] =
     [''merge: invalid parameters: missing repository'',
      ''merge: invalid parameters: missing repository'',
      ''merge: invalid parameters: missing author name'',
      ''merge: invalid parameters: missing author mail'',
      ''merge: invalid parameters: missing message'',
      ''merge: invalid parameters: missing ours'',
      ''merge: invalid parameters: missing theirs'',
      ''merge: invalid parameters: missing committer mail'',
      ''merge: invalid parameters: missing committer name'',
      ''merge: invalid parameters: missing committer date''] \<and>
   opened (snd (Merge squash_world request_missing_author_name)) = [] \<and>
   Merge squash_world request_invalid_repository_path =
     (Inl (CouldNotOpenRepository ''/does/not/exist''),
      squash_world\<lparr>opened := [''/does/not/exist'']\<rparr>)"
proof -
  note v = validation_names_first_missing_field
  have "repositories squash_world (Repository request_invalid_repository_path) = None"
    by (simp add: squash_world_def request_invalid_repository_path_def repoPath_def)
  then have "Merge squash_world request_invalid_repository_path =
     (Inl (CouldNotOpenRepository ''/does/not/exist''),
      squash_world\<lparr>opened := [''/does/not/exist'']\<rparr>)"
    using v[of request_invalid_repository_path _ squash_world] test_requests_first_missing(11)
    by (simp add: request_invalid_repository_path_def squash_world_def)
  moreover have "opened (snd (Merge squash_world request_missing_author_name)) = []"
    using v[of request_missing_author_name "''author name''" squash_world]
      test_requests_first_missing(3)
    by (simp add: squash_world_def)
  moreover have "fst (Merge squash_world zero_command) =
      Inl (InvalidParameters ''missing repository'')"
    "fst (Merge squash_world request_missing_repository) =
      Inl (InvalidParameters ''missing repository'')"
    "fst (Merge squash_world request_missing_author_name) =
      Inl (InvalidParameters ''missing author name'')"
    "fst (Merge squash_world request_missing_author_mail) =
      Inl (InvalidParameters ''missing author mail'')"
    "fst (Merge squash_world request_missing_message) =
      Inl (InvalidParameters ''missing message'')"
    "fst (Merge squash_world request_missing_ours) = Inl (InvalidParameters ''missing ours'')"
    "fst (Merge squash_world request_missing_theirs) = Inl (InvalidParameters ''missing theirs'')"
    "fst (Merge squash_world request_missing_committer_mail) =
      Inl (InvalidParameters ''missing committer mail'')"
    "fst (Merge squash_world request_missing_committer_name) =
      Inl (InvalidParameters ''missing committer name'')"
    "fst (Merge squash_world request_missing_committer_date) =
      Inl (InvalidParameters ''missing committer date'')"
    using v[of zero_command "''repository''" squash_world]
      v[of request_missing_repository "''repository''" squash_world]
      v[of request_missing_author_name "''author name''" squash_world]
      v[of request_missing_author_mail "''author mail''" squash_world]
      v[of request_missing_message "''message''" squash_world]
      v[of request_missing_ours "''ours''" squash_world]
      v[of request_missing_theirs "''theirs''" squash_world]
      v[of request_missing_committer_mail "''committer mail''" squash_world]
      v[of request_missing_committer_name "''committer name''" squash_world]
      v[of request_missing_committer_date "''committer date''" squash_world]
      test_requests_first_missing
    by simp_all
  ultimately show ?thesis by simp
qed

lemma Merge_success:
  assumes "Merge w m = (Inr result, w')"
  shows "\<exists>repo ours_id ours theirs_id theirs merged.
           verify m = None \<and> repositories w (Repository m) = Some repo \<and>
           resolve repo (Ours m) = Some (ours_id, ours) \<and>
           resolve repo (Theirs m) = Some (theirs_id, theirs) \<and>
           merge_trees (merge_file repo) (merge_base_tree repo ours_id theirs_id)
             (commit_tree ours) (commit_tree theirs) = Inr merged \<and>
           w' = w\<lparr>opened := opened w @ [Repository m],
                  repositories := (repositories w)
                    (Repository m \<mapsto> repo\<lparr>commits := (commits repo)
                       (CommitID result \<mapsto>
                          \<lparr>commit_tree = merged,
                           commit_parents = (if Squash m then [ours_id] else [ours_id, theirs_id]),
                           commit_author = \<lparr>sig_name = AuthorName m, sig_mail = AuthorMail m,
                                             sig_when = AuthorDate m\<rparr>,
                           commit_committer =
                             (if CommitterName m = [] then
                                \<lparr>sig_name = AuthorName m, sig_mail = AuthorMail m,
                                  sig_when = AuthorDate m\<rparr>
                              else \<lparr>sig_name = CommitterName m, sig_mail = CommitterMail m,
                                     sig_when = CommitterDate m\<rparr>),
                           commit_message = Message m\<rparr>)\<rparr>)\<rparr>"
  using assms
  by (auto simp: Merge_def Let_def split: option.splits sum.splits prod.splits)

text \<open>
  Claim C8. When \<open>Merge\<close> returns a commit, the commit written under the returned ID
  has exactly one parent, \<open>ours\<close>, for a squash merge, and exactly the two parents
  \<open>ours\<close>, \<open>theirs\<close>, in that order, otherwise; in both modes its tree is the merge of
  the trees of \<open>ours\<close> and \<open>theirs\<close>, so a squash keeps the content changes of \<open>theirs\<close>
  and drops it from the history only.
\<close>

theorem squash_has_one_parent_merge_has_two:
  assumes "Merge w m = (Inr result, w')"
  shows "\<exists>repo repo' ours_id ours theirs_id theirs c.
           repositories w (Repository m) = Some repo \<and>
           resolve repo (Ours m) = Some (ours_id, ours) \<and>
           resolve repo (Theirs m) = Some (theirs_id, theirs) \<and>
           repositories w' (Repository m) = Some repo' \<and>
           commits repo' (CommitID result) = Some c \<and>
           commit_parents c = (if Squash m then [ours_id] else [ours_id, theirs_id]) \<and>
           merge_trees (merge_file repo) (merge_base_tree repo ours_id theirs_id)
             (commit_tree ours) (commit_tree theirs) = Inr (commit_tree c)"
proof -
  from Merge_success[OF assms] obtain repo ours_id ours theirs_id theirs merged where
    s: "repositories w (Repository m) = Some repo"
      "resolve repo (Ours m) = Some (ours_id, ours)"
      "resolve repo (Theirs m) = Some (theirs_id, theirs)"
      "merge_trees (merge_file repo) (merge_base_tree repo ours_id theirs_id)
             (commit_tree ours) (commit_tree theirs) = Inr merged"
    and w': "w' = w\<lparr>opened := opened w @ [Repository m],
                  repositories := (repositories w)
                    (Repository m \<mapsto> repo\<lparr>commits := (commits repo)
                       (CommitID result \<mapsto>
                          \<lparr>commit_tree = merged,
                           commit_parents = (if Squash m then [ours_id] else [ours_id, theirs_id]),
                           commit_author = \<lparr>sig_name = AuthorName m, sig_mail = AuthorMail m,
                                             sig_when = AuthorDate m\<rparr>,
                           commit_committer =
                             (if CommitterName m = [] then
                                \<lparr>sig_name = AuthorName m, sig_mail = AuthorMail m,
                                  sig_when = AuthorDate m\<rparr>
                              else \<lparr>sig_name = CommitterName m, sig_mail = CommitterMail m,
                                     sig_when = CommitterDate m\<rparr>),
                           commit_message = Message m\<rparr>)\<rparr>)\<rparr>"
    by blast
  let ?c = "\<lparr>commit_tree = merged,
             commit_parents = (if Squash m then [ours_id] else [ours_id, theirs_id]),
             commit_author = \<lparr>sig_name = AuthorName m, sig_mail = AuthorMail m,
                               sig_when = AuthorDate m\<rparr>,
             commit_committer =
               (if CommitterName m = [] then
                  \<lparr>sig_name = AuthorName m, sig_mail = AuthorMail m,
                    sig_when = AuthorDate m\<rparr>
                else \<lparr>sig_name = CommitterName m, sig_mail = CommitterMail m,
                       sig_when = CommitterDate m\<rparr>),
             commit_message = Message m\<rparr>"
  let ?repo' = "repo\<lparr>commits := (commits repo)(CommitID result \<mapsto> ?c)\<rparr>"
  have "repositories w' (Repository m) = Some ?repo'" by (simp add: w')
  moreover have "commits ?repo' (CommitID result) = Some ?c" by simp
  moreover have "commit_parents ?c = (if Squash m then [ours_id] else [ours_id, theirs_id])"
    by simp
  moreover have "merge_trees (merge_file repo) (merge_base_tree repo ours_id theirs_id)
             (commit_tree ours) (commit_tree theirs) = Inr (commit_tree ?c)"
    using s(4) by simp
  ultimately show ?thesis using s(1,2,3) by blast
qed

lemma Merge_resolved:
  assumes "verify m = None" and "repositories w (Repository m) = Some repo"
    and "resolve repo (Ours m) = Some (ours_id, ours)"
    and "resolve repo (Theirs m) = Some (theirs_id, theirs)"
    and "merge_trees (merge_file repo) (merge_base_tree repo ours_id theirs_id)
           (commit_tree ours) (commit_tree theirs) = Inr t"
  shows "Merge w m =
     (Inr \<lparr>CommitID = object_id repo (merged_commit m t ours_id theirs_id)\<rparr>,
      w\<lparr>opened := opened w @ [Repository m],
        repositories := (repositories w)
          (Repository m \<mapsto> repo\<lparr>commits := (commits repo)
             (object_id repo (merged_commit m t ours_id theirs_id) \<mapsto>
                merged_commit m t ours_id theirs_id)\<rparr>)\<rparr>)"
  using assms by (simp add: Merge_def Let_def merged_commit_def)

lemma squash_resolves:
  "verify squash_request = None" "verify merge_request = None"
  "repositories squash_world repoPath = Some squash_repository"
  "resolve squash_repository ''ours'' =
     Some (''ours'', test_commit [(''file.txt'', ''a\<newline>b\<newline>c'')] [''base''])"
  "resolve squash_repository ''theirs2'' =
     Some (''theirs2'', test_commit [(''file.txt'', ''b\<newline>c\<newline>d\<newline>e'')] [''theirs1''])"
  "merge_trees (merge_file squash_repository) (merge_base_tree squash_repository ''ours'' ''theirs2'')
     [(''file.txt'', ''a\<newline>b\<newline>c'')] [(''file.txt'', ''b\<newline>c\<newline>d\<newline>e'')] =
     Inr [(''file.txt'', ''a\<newline>b\<newline>c\<newline>d\<newline>e'')]"
  by (simp_all add: verify_def squash_request_def merge_request_def zero_command_def repoPath_def
      squash_world_def squash_repository_def resolve_def merge_trees_def merge_path_def)

lemma squash_request_fields:
  "Repository squash_request = repoPath" "Ours squash_request = ''ours''"
  "Theirs squash_request = ''theirs2''" "Squash squash_request"
  "Repository merge_request = repoPath" "Ours merge_request = ''ours''"
  "Theirs merge_request = ''theirs2''" "\<not> Squash merge_request"
  by (simp_all add: squash_request_def merge_request_def zero_command_def)

lemma squash_runs:
  "fst (Merge squash_world squash_request) = Inr \<lparr>CommitID = ''merge-of-ours''\<rparr>"
  "fst (Merge squash_world merge_request) = Inr \<lparr>CommitID = ''merge-of-ourstheirs2''\<rparr>"
proof -
  have t: "commit_tree (test_commit x ps) = x" for x ps by (simp add: test_commit_def)
  have o: "object_id squash_repository c = ''merge-of-'' @ concat (commit_parents c)" for c
    by (simp add: squash_repository_def)
  show "fst (Merge squash_world squash_request) = Inr \<lparr>CommitID = ''merge-of-ours''\<rparr>"
    using Merge_resolved[of squash_request squash_world squash_repository "''ours''" _ "''theirs2''"
        _ "[(''file.txt'', ''a\<newline>b\<newline>c\<newline>d\<newline>e'')]"]
      squash_resolves
    by (simp add: squash_request_fields t o merged_commit_def)
  show "fst (Merge squash_world merge_request) = Inr \<lparr>CommitID = ''merge-of-ourstheirs2''\<rparr>"
    using Merge_resolved[of merge_request squash_world squash_repository "''ours''" _ "''theirs2''"
        _ "[(''file.txt'', ''a\<newline>b\<newline>c\<newline>d\<newline>e'')]"]
      squash_resolves
    by (simp add: squash_request_fields t o merged_commit_def)
qed

theorem squash_has_one_parent_merge_has_two_witness:
  "(\<exists>repo' c. repositories (snd (Merge squash_world squash_request)) repoPath = Some repo' \<and>
       commits repo' ''merge-of-ours'' = Some c \<and> commit_parents c = [''ours''] \<and>
       commit_tree c = [(''file.txt'', ''a\<newline>b\<newline>c\<newline>d\<newline>e'')]) \<and>
   (\<exists>repo' c. repositories (snd (Merge squash_world merge_request)) repoPath = Some repo' \<and>
       commits repo' ''merge-of-ourstheirs2'' = Some c \<and>
       commit_parents c = [''ours'', ''theirs2''] \<and>
       commit_tree c = [(''file.txt'', ''a\<newline>b\<newline>c\<newline>d\<newline>e'')])"
proof -
  have t: "commit_tree (test_commit x ps) = x" for x ps by (simp add: test_commit_def)
  obtain w1 where r1: "Merge squash_world squash_request = (Inr \<lparr>CommitID = ''merge-of-ours''\<rparr>, w1)"
    using squash_runs(1) by (cases "Merge squash_world squash_request") simp
  obtain w2 where r2:
    "Merge squash_world merge_request = (Inr \<lparr>CommitID = ''merge-of-ourstheirs2''\<rparr>, w2)"
    using squash_runs(2) by (cases "Merge squash_world merge_request") simp
  from squash_has_one_parent_merge_has_two[OF r1]
  have one: "\<exists>repo' c. repositories w1 repoPath = Some repo' \<and>
       commits repo' ''merge-of-ours'' = Some c \<and> commit_parents c = [''ours''] \<and>
       commit_tree c = [(''file.txt'', ''a\<newline>b\<newline>c\<newline>d\<newline>e'')]"
    using squash_resolves by (auto simp: squash_request_fields t)
  from squash_has_one_parent_merge_has_two[OF r2]
  have two: "\<exists>repo' c. repositories w2 repoPath = Some repo' \<and>
       commits repo' ''merge-of-ourstheirs2'' = Some c \<and>
       commit_parents c = [''ours'', ''theirs2''] \<and>
       commit_tree c = [(''file.txt'', ''a\<newline>b\<newline>c\<newline>d\<newline>e'')]"
    using squash_resolves by (auto simp: squash_request_fields t)
  show ?thesis using one two r1 r2 by simp
qed

lemma entries_of_distinct_tree:
  "distinct (map fst t) \<Longrightarrow>
     concat (map (\<lambda>p. case map_of t p of Some content \<Rightarrow> [(p, content)] | None \<Rightarrow> [])
               (map fst t)) = t"
proof (induction t)
  case Nil
  then show ?case by simp
next
  case (Cons entry rest)
  obtain k v where e: "entry = (k, v)" by (cases entry)
  have k: "k \<notin> fst ` set rest" and d: "distinct (map fst rest)" using Cons.prems e by simp_all
  have same: "map (\<lambda>p. case map_of (entry # rest) p of Some content \<Rightarrow> [(p, content)] | None \<Rightarrow> [])
                (map fst rest) =
              map (\<lambda>p. case map_of rest p of Some content \<Rightarrow> [(p, content)] | None \<Rightarrow> [])
                (map fst rest)"
    using k e by (intro map_cong) auto
  have head: "concat (map (\<lambda>p. case map_of (entry # rest) p of
                                    Some content \<Rightarrow> [(p, content)] | None \<Rightarrow> [])
                           (map fst (entry # rest))) =
      [(k, v)] @ concat (map (\<lambda>p. case map_of (entry # rest) p of
                                    Some content \<Rightarrow> [(p, content)] | None \<Rightarrow> [])
                           (map fst rest))"
    by (simp add: e del: map_map)
  show ?case unfolding head same Cons.IH[OF d] by (simp add: e)
qed

lemma resolve_Some_iff:
  "resolve repo revision = Some (oid, c) \<longleftrightarrow>
     revisions repo revision = Some oid \<and> commits repo oid = Some c"
  by (auto simp: resolve_def split: option.splits)

lemma resolve_after_write:
  assumes "resolve repo revision = Some (oid, c)" and "commit_tree c = t"
    and "commit_tree new = t"
  shows "\<exists>c'. resolve (repo\<lparr>commits := (commits repo)(new_id \<mapsto> new)\<rparr>) revision = Some (oid, c') \<and>
              commit_tree c' = t"
proof (cases "oid = new_id")
  case True
  then show ?thesis using assms by (simp add: resolve_Some_iff)
next
  case False
  then show ?thesis using assms by (simp add: resolve_Some_iff)
qed

lemma merge_trees_identical:
  assumes "distinct (map fst t)"
  shows "merge_trees mf base t t = Inr t"
proof -
  have paths: "remdups (map fst t @ map fst t) = map fst t"
    using assms by (simp add: remdups_append distinct_remdups_id)
  have path: "merge_path mf base t t p = Resolved (map_of t p)" for p
    by (simp add: merge_path_def)
  have entries: "(\<lambda>p. case merge_path mf base t t p of
                        Resolved (Some content) \<Rightarrow> [(p, content)] | _ \<Rightarrow> []) =
                 (\<lambda>p. case map_of t p of Some content \<Rightarrow> [(p, content)] | None \<Rightarrow> [])"
    by (intro ext) (simp add: path split: option.splits)
  show ?thesis
    unfolding merge_trees_def paths Let_def entries
    using entries_of_distinct_tree[OF assms] by (simp add: path)
qed

text \<open>
  Claim C9. For a valid command whose \<open>ours\<close>, \<open>theirs\<close> and merge base carry the same
  tree, \<open>Merge\<close> reports no conflict and returns a commit whose tree is that tree; a
  second run of the same command, on the repository the first run left, returns the same
  commit ID.
\<close>

theorem identical_trees_merge_deterministically:
  assumes "verify m = None" and "repositories w (Repository m) = Some repo"
    and "resolve repo (Ours m) = Some (ours_id, ours)"
    and "resolve repo (Theirs m) = Some (theirs_id, theirs)"
    and "commit_tree ours = t" and "commit_tree theirs = t"
    and "merge_base_tree repo ours_id theirs_id = t"
    and "distinct (map fst t)"
  shows "\<exists>oid w' w'' repo' c.
           Merge w m = (Inr \<lparr>CommitID = oid\<rparr>, w') \<and>
           repositories w' (Repository m) = Some repo' \<and>
           commits repo' oid = Some c \<and> commit_tree c = t \<and>
           Merge w' m = (Inr \<lparr>CommitID = oid\<rparr>, w'')"
proof -
  let ?c = "merged_commit m t ours_id theirs_id"
  let ?oid = "object_id repo ?c"
  let ?repo' = "repo\<lparr>commits := (commits repo)(?oid \<mapsto> ?c)\<rparr>"
  let ?w' = "w\<lparr>opened := opened w @ [Repository m],
               repositories := (repositories w)(Repository m \<mapsto> ?repo')\<rparr>"
  have mt: "merge_trees (merge_file repo) (merge_base_tree repo ours_id theirs_id)
           (commit_tree ours) (commit_tree theirs) = Inr t"
    using merge_trees_identical[OF assms(8)] assms(5,6) by simp
  have first: "Merge w m = (Inr \<lparr>CommitID = ?oid\<rparr>, ?w')"
    using Merge_resolved[OF assms(1,2,3,4) mt] .
  have tc: "commit_tree ?c = t" by (simp add: merged_commit_def)
  txt \<open>In the repository the first run left, the revisions resolve to commits with the same
    tree: the commits they resolved to before, or the new commit where its ID is theirs.\<close>
  obtain ours' where o': "resolve ?repo' (Ours m) = Some (ours_id, ours')" "commit_tree ours' = t"
    using resolve_after_write[OF assms(3,5) tc] by blast
  obtain theirs' where t': "resolve ?repo' (Theirs m) = Some (theirs_id, theirs')"
    "commit_tree theirs' = t"
    using resolve_after_write[OF assms(4,6) tc] by blast
  have mt': "merge_trees (merge_file ?repo') (merge_base_tree ?repo' ours_id theirs_id)
           (commit_tree ours') (commit_tree theirs') = Inr t"
    using merge_trees_identical[OF assms(8)] o'(2) t'(2) by simp
  have r': "repositories ?w' (Repository m) = Some ?repo'" by simp
  have "\<exists>w''. Merge ?w' m = (Inr \<lparr>CommitID = ?oid\<rparr>, w'')"
    using Merge_resolved[OF assms(1) r' o'(1) t'(1) mt'] by simp
  then obtain w'' where second: "Merge ?w' m = (Inr \<lparr>CommitID = ?oid\<rparr>, w'')" by blast
  have "commits ?repo' ?oid = Some ?c" by simp
  then show ?thesis using first r' tc second by blast
qed

lemma trivial_resolves:
  "verify trivial_request = None"
  "repositories trivial_world (Repository trivial_request) = Some trivial_repository"
  "resolve trivial_repository (Ours trivial_request) =
     Some (''ours'', test_commit [(''file'', ''a'')] [''base''])"
  "resolve trivial_repository (Theirs trivial_request) =
     Some (''theirs'', test_commit [(''file'', ''a'')] [''base''])"
  "merge_base_tree trivial_repository ''ours'' ''theirs'' = [(''file'', ''a'')]"
  by (simp_all add: verify_def trivial_request_def zero_command_def repoPath_def
      trivial_world_def trivial_repository_def resolve_def)

theorem identical_trees_merge_deterministically_witness:
  "\<exists>oid repo' c.
     fst (Merge trivial_world trivial_request) = Inr \<lparr>CommitID = oid\<rparr> \<and>
     repositories (snd (Merge trivial_world trivial_request)) repoPath = Some repo' \<and>
     commits repo' oid = Some c \<and> commit_tree c = [(''file'', ''a'')] \<and>
     fst (Merge (snd (Merge trivial_world trivial_request)) trivial_request) =
       Inr \<lparr>CommitID = oid\<rparr>"
proof -
  have t: "commit_tree (test_commit x ps) = x" for x ps by (simp add: test_commit_def)
  have p: "Repository trivial_request = repoPath"
    by (simp add: trivial_request_def zero_command_def)
  from identical_trees_merge_deterministically[OF trivial_resolves(1,2,3,4) t t
      trivial_resolves(5)]
  obtain oid w' w'' repo' c where
    "Merge trivial_world trivial_request = (Inr \<lparr>CommitID = oid\<rparr>, w')"
    "repositories w' (Repository trivial_request) = Some repo'"
    "commits repo' oid = Some c" "commit_tree c = [(''file'', ''a'')]"
    "Merge w' trivial_request = (Inr \<lparr>CommitID = oid\<rparr>, w'')"
    by auto
  then show ?thesis using p by (intro exI[of _ oid] exI[of _ repo'] exI[of _ c]) simp
qed

end
